theory Spec2Isabelle
  imports Complex_Main "HOL-Library.Word"
begin

section \<open>s3-mp-download: a parallel range downloader\<close>

text \<open>
  A shallow embedding of \<^verbatim>\<open>s3-mp-downloader/s3-mp-download.py\<close>. Python's unbounded
  integers are \<^typ>\<open>int\<close>, strings are \<^typ>\<open>string\<close>, raised exceptions are the
  left summand of a result type.

  The script divides with Python floats (\<^verbatim>\<open>1. * size / num_parts\<close>,
  \<^verbatim>\<open>size / 1024 / 1024 / split\<close>) and rounds the quotient up with \<^verbatim>\<open>ceil\<close>. The
  model divides exactly, in \<^typ>\<open>rat\<close>. For object sizes below \<open>2 ^ 53\<close> bytes the two
  agree: a quotient that is not an integer lies at least \<open>1 / divisor\<close> above the integer
  below it, which is more than half the spacing of doubles at that magnitude, so rounding
  to the nearest double never reaches that integer. From \<open>2 ^ 53\<close> bytes on they can
  differ: for \<open>2 ^ 53 + 1\<close> bytes in 2 parts the script computes the part size
  \<open>2 ^ 52\<close>, the model \<open>2 ^ 52 + 1\<close>. A theorem below that depends on the value of
  such a quotient therefore assumes a size below \<open>2 ^ 53\<close>.
\<close>

subsection \<open>Exceptions\<close>

text \<open>
  The exceptions the script can see. \<open>ClientError\<close> carries the error code of the
  service's reply; \<open>TransportError\<close> stands for any other exception of the S3 client
  (connection reset, timeout, truncated body).
\<close>

datatype error =
    ZeroDivisionError
  | IndexError
  | ValueError string
  | ClientError string
  | OSError
  | TransportError
  | KeyboardInterrupt
  | SystemExit int

text \<open>\<^verbatim>\<open>except Exception\<close> does not catch \<^verbatim>\<open>KeyboardInterrupt\<close> and \<^verbatim>\<open>SystemExit\<close>.\<close>

fun is_exception :: "error \<Rightarrow> bool" where
  "is_exception KeyboardInterrupt = False"
| "is_exception (SystemExit n) = False"
| "is_exception e = True"

text \<open>Python's \<^verbatim>\<open>/\<close> on numbers: it raises when the divisor is 0.\<close>

definition py_truediv :: "rat \<Rightarrow> rat \<Rightarrow> error + rat" where
  "py_truediv a b = (if b = 0 then Inl ZeroDivisionError else Inr (a / b))"

subsection \<open>Byte ranges: \<^verbatim>\<open>gen_byte_ranges\<close>\<close>

type_synonym byte_range = "int \<times> int"

text \<open>Line 161: \<^verbatim>\<open>part_size = int(ceil(1. * size / num_parts))\<close>.\<close>

definition part_size :: "int \<Rightarrow> int \<Rightarrow> error + int" where
  "part_size sz num_parts =
     (case py_truediv (rat_of_int sz) (rat_of_int num_parts) of
        Inl e \<Rightarrow> Inl e
      | Inr q \<Rightarrow> Inr \<lceil>q\<rceil>)"

text \<open>
  The generator, as the list of the pairs it yields. \<^verbatim>\<open>range(num_parts)\<close> is
  \<open>[0..num_parts - 1]\<close>, empty when \<open>num_parts \<le> 0\<close>.
\<close>

definition gen_byte_ranges :: "int \<Rightarrow> int \<Rightarrow> error + byte_range list" where
  "gen_byte_ranges sz num_parts =
     (case part_size sz num_parts of
        Inl e \<Rightarrow> Inl e
      | Inr ps \<Rightarrow>
          Inr (map (\<lambda>i. (ps * i, min (ps * (i + 1) - 1) (sz - 1))) [0..num_parts - 1]))"

subsection \<open>What a plan of ranges has to satisfy\<close>

definition range_len :: "byte_range \<Rightarrow> int" where
  "range_len r = snd r - fst r + 1"

definition range_bytes :: "byte_range \<Rightarrow> int set" where
  "range_bytes r = {fst r..snd r}"

fun contiguous :: "byte_range list \<Rightarrow> bool" where
  "contiguous [] = True"
| "contiguous [r] = True"
| "contiguous (r # r' # rs) = (fst r' = snd r + 1 \<and> contiguous (r' # rs))"

definition exact_cover :: "int \<Rightarrow> byte_range list \<Rightarrow> bool" where
  "exact_cover sz rs \<longleftrightarrow>
     list_all (\<lambda>r. fst r \<le> snd r) rs \<and>
     contiguous rs \<and>
     sorted_wrt (\<lambda>a b. snd a < fst b) rs \<and>
     \<Union> (set (map range_bytes rs)) = {0..sz - 1} \<and>
     sum_list (map range_len rs) = sz"

subsection \<open>The world outside the script\<close>

type_synonym byte = "8 word"
type_synonym path = string

datatype node = Dir | File "byte list"

text \<open>
  What \<^verbatim>\<open>get_object\<close> answers to one request: the chunks that
  \<^verbatim>\<open>iter_chunks\<close> yields, and how the iteration ends after them. A request that
  fails before any byte arrives has no chunks and ends with \<open>Raises\<close>.
\<close>

datatype stream_end = End_of_stream | Raises error

record response =
  chunks :: "byte list list"
  ending :: stream_end

text \<open>The calls to collaborators that the model records, in the order they are made.\<close>

datatype call =
    Head_object string string
  | Get_object string string int int
  | Download_file string string path
  | Sleep rat
  | Thread_start
  | Pool_create int
  | Pool_terminate

text \<open>
  The state the functions of the script act on. Paths are opaque names.
  \<open>stop_event\<close> and \<open>queue\<close> are the manager's Event and Queue (lines 300-302), which
  are created cleared and empty. The event is shared with other processes and threads:
  \<open>stop_at = Some n\<close> says that one of them calls \<^verbatim>\<open>stop_event.set()\<close> just before
  the \<open>n\<close>-th reading of the event by the code under consideration (readings are
  counted by \<open>clock\<close>). \<open>responses\<close>, \<open>head_reply\<close> and \<open>download_reply\<close> are
  what the S3 service will answer; \<open>interrupt_after = Some k\<close> says that the user
  presses CTRL+C when \<open>k\<close> parts are done.
\<close>

record world =
  fs :: "path \<rightharpoonup> node"
  stop_event :: bool
  stop_at :: "nat option"
  clock :: nat
  queue :: "int list"
  responses :: "response list"
  head_reply :: "error + int"
  download_reply :: "error + byte list"
  interrupt_after :: "nat option"
  calls :: "call list"

definition log_call :: "call \<Rightarrow> world \<Rightarrow> world" where
  "log_call c w = w\<lparr>calls := calls w @ [c]\<rparr>"

text \<open>\<^verbatim>\<open>stop_event.is_set()\<close> and \<^verbatim>\<open>stop_event.set()\<close>.\<close>

definition is_set :: "world \<Rightarrow> bool \<times> world" where
  "is_set w =
     (let w1 = (if stop_at w = Some (clock w) then w\<lparr>stop_event := True\<rparr> else w)
      in (stop_event w1, w1\<lparr>clock := clock w1 + 1\<rparr>))"

definition event_set :: "world \<Rightarrow> world" where
  "event_set w = w\<lparr>stop_event := True\<rparr>"

text \<open>\<^verbatim>\<open>queue.put(n)\<close>.\<close>

definition queue_put :: "int \<Rightarrow> world \<Rightarrow> world" where
  "queue_put n w = w\<lparr>queue := queue w @ [n]\<rparr>"

subsection \<open>Files\<close>

text \<open>
  A descriptor is a path and a position. \<^verbatim>\<open>os.open(fname, os.O_WRONLY)\<close> followed by
  \<^verbatim>\<open>os.lseek(fd, min_byte, os.SEEK_SET)\<close> raises \<^verbatim>\<open>OSError\<close> when the file is
  missing or a directory, or the offset is negative.
\<close>

record fd =
  fd_path :: path
  fd_pos :: nat

definition os_open_seek :: "path \<Rightarrow> int \<Rightarrow> world \<Rightarrow> error + fd" where
  "os_open_seek p off w =
     (case fs w p of
        Some (File c) \<Rightarrow>
          if off < 0 then Inl OSError else Inr \<lparr>fd_path = p, fd_pos = nat off\<rparr>
      | _ \<Rightarrow> Inl OSError)"

text \<open>Writing at a position past the end of a file leaves a hole of zero bytes.\<close>

definition write_at :: "nat \<Rightarrow> byte list \<Rightarrow> byte list \<Rightarrow> byte list" where
  "write_at pos bs c =
     take pos c @ replicate (pos - length c) 0 @ bs @ drop (pos + length bs) c"

text \<open>
  \<^verbatim>\<open>os.write(fd, chunk)\<close>: the bytes go to the file at the descriptor's position,
  which moves on. A file removed in the meantime takes the bytes with it.
\<close>

definition os_write :: "fd \<Rightarrow> byte list \<Rightarrow> world \<Rightarrow> fd \<times> world" where
  "os_write d bs w =
     (d\<lparr>fd_pos := fd_pos d + length bs\<rparr>,
      case fs w (fd_path d) of
        Some (File c) \<Rightarrow> w\<lparr>fs := (fs w)(fd_path d \<mapsto> File (write_at (fd_pos d) bs c))\<rparr>
      | _ \<Rightarrow> w)"

text \<open>\<^verbatim>\<open>os.path.isdir\<close>, \<^verbatim>\<open>os.path.exists\<close>, \<^verbatim>\<open>os.remove\<close>.\<close>

definition isdir :: "world \<Rightarrow> path \<Rightarrow> bool" where
  "isdir w p = (fs w p = Some Dir)"

definition exists :: "world \<Rightarrow> path \<Rightarrow> bool" where
  "exists w p = (fs w p \<noteq> None)"

definition os_remove :: "path \<Rightarrow> world \<Rightarrow> (error + unit) \<times> world" where
  "os_remove p w =
     (case fs w p of
        Some (File c) \<Rightarrow> (Inr (), w\<lparr>fs := (fs w)(p := None)\<rparr>)
      | _ \<Rightarrow> (Inl OSError, w))"

text \<open>
  \<^verbatim>\<open>os.open(dest, os.O_CREAT | os.O_WRONLY)\<close> and \<^verbatim>\<open>os.close\<close>: a missing file is
  created empty, an existing file keeps its content.
\<close>

definition os_create :: "path \<Rightarrow> world \<Rightarrow> (error + unit) \<times> world" where
  "os_create p w =
     (case fs w p of
        None \<Rightarrow> (Inr (), w\<lparr>fs := (fs w)(p \<mapsto> File [])\<rparr>)
      | Some (File c) \<Rightarrow> (Inr (), w)
      | Some Dir \<Rightarrow> (Inl OSError, w))"

subsection \<open>The worker: \<^verbatim>\<open>do_part_download\<close>\<close>

text \<open>
  The tuple that \<^verbatim>\<open>do_part_download\<close> unpacks (line 88). \<open>has_queue\<close> is
  \<^verbatim>\<open>queue is not None\<close>; the queue and the event themselves are in the world.
\<close>

record args =
  bucket_name :: string
  key_name :: string
  fname :: path
  min_byte :: int
  max_byte :: int
  split :: int
  secure :: bool
  max_tries :: int
  current_tries :: int
  is_public :: bool
  region :: "string option"
  has_queue :: bool

text \<open>
  \<^verbatim>\<open>s3_client.get_object(Bucket, Key, Range)\<close>: the next answer of the service. The
  range header \<^verbatim>\<open>"bytes=%d-%d"\<close> is recorded as its two numbers.
\<close>

definition get_object :: "string \<Rightarrow> string \<Rightarrow> int \<Rightarrow> int \<Rightarrow> world \<Rightarrow> response \<times> world" where
  "get_object b k lo hi w =
     (case responses w of
        [] \<Rightarrow> (\<lparr>chunks = [], ending = Raises TransportError\<rparr>, log_call (Get_object b k lo hi) w)
      | r # rs \<Rightarrow> (r, log_call (Get_object b k lo hi) (w\<lparr>responses := rs\<rparr>)))"

text \<open>
  The loop of lines 122-133 over the chunks of the stream. The result is \<open>True\<close> when
  the chunks are used up, \<open>False\<close> when the loop is left by \<^verbatim>\<open>break\<close>.
\<close>

fun write_chunks :: "bool \<Rightarrow> byte list list \<Rightarrow> fd \<Rightarrow> world \<Rightarrow> bool \<times> world" where
  "write_chunks q [] d w = (True, w)"
| "write_chunks q (chunk # rest) d w =
     (let (stopped, w1) = is_set w in
      if stopped then (False, w1)
      else if chunk = [] then (False, w1)
      else
        let (d', w2) = os_write d chunk w1;
            w3 = (if q then queue_put (int (length chunk)) w2 else w2)
        in write_chunks q rest d' w3)"

text \<open>
  One pass through the body of \<^verbatim>\<open>do_part_download\<close>, lines 90-139: up to a return, an
  exception that leaves the function, or the decision of the handler of line 135 to look
  at the number of tries.
\<close>

datatype attempt_result = Returned "error + unit" | Failed_attempt error

definition download_attempt :: "args \<Rightarrow> world \<Rightarrow> attempt_result \<times> world" where
  "download_attempt a w =
     (let (stopped, w1) = is_set w in
      if stopped then (Returned (Inr ()), w1)
      else
        case os_open_seek (fname a) (min_byte a) w1 of
          Inl e \<Rightarrow>
            (let (stopped, w2) = is_set w1 in
             if stopped then (Returned (Inr ()), w2) else (Returned (Inl e), w2))
        | Inr d \<Rightarrow>
            (let (resp, w2) = get_object (bucket_name a) (key_name a) (min_byte a) (max_byte a) w1;
                 (used_up, w3) = write_chunks (has_queue a) (chunks resp) d w2
             in case (if used_up then ending resp else End_of_stream) of
                  End_of_stream \<Rightarrow> (Returned (Inr ()), w3)
                | Raises err \<Rightarrow>
                    if \<not> is_exception err then (Returned (Inl err), w3)
                    else
                      let (stopped, w4) = is_set w3 in
                      if stopped then (Returned (Inr ()), w4) else (Failed_attempt err, w4)))"

text \<open>
  Lines 141-150: the handler raises when \<^verbatim>\<open>current_tries > max_tries\<close>, and otherwise
  sleeps and calls \<^verbatim>\<open>do_part_download\<close> again with \<^verbatim>\<open>current_tries + 1\<close>.
\<close>

function do_part_download :: "args \<Rightarrow> world \<Rightarrow> (error + unit) \<times> world" where
  "do_part_download a w =
     (case download_attempt a w of
        (Returned r, w1) \<Rightarrow> (r, w1)
      | (Failed_attempt err, w1) \<Rightarrow>
          if current_tries a > max_tries a then (Inl err, w1)
          else do_part_download (a\<lparr>current_tries := current_tries a + 1\<rparr>) (log_call (Sleep 3) w1))"
  by pat_completeness auto
termination
  by (relation "measure (\<lambda>(a, w). nat (max_tries a + 1 - current_tries a))") auto

subsection \<open>The aggregator: \<^verbatim>\<open>progress_monitor\<close>\<close>

text \<open>
  The thread's own variables: the byte counter, the window of the last 20 samples
  (\<^verbatim>\<open>collections.deque(maxlen=20)\<close>), and the percentage and speed of every line it
  has drawn. Time stamps are exact numbers. The text of the progress line
  (\<^verbatim>\<open>format_bytes\<close>, the bar) is not modelled.
\<close>

record monitor =
  downloaded :: int
  dq :: "(rat \<times> int) list"
  frames :: "(rat \<times> rat) list"

text \<open>
  What one pass of the loop reads from outside: the clock, and the key that
  \<^verbatim>\<open>msvcrt.getwch()\<close> returns when the system is Windows and a key was hit.
\<close>

record tick =
  current_time :: rat
  key :: "char option"

definition dq_append :: "'a \<Rightarrow> 'a list \<Rightarrow> 'a list" where
  "dq_append x xs = (if length xs \<ge> 20 then tl xs @ [x] else xs @ [x])"

text \<open>Lines 213-215.\<close>

definition speed_of :: "rat \<times> int \<Rightarrow> rat \<times> int \<Rightarrow> error + rat" where
  "speed_of newest oldest =
     (let time_diff = fst newest - fst oldest;
          bytes_diff = snd newest - snd oldest
      in if time_diff > 0 then py_truediv (rat_of_int bytes_diff) time_diff else Inr 0)"

text \<open>Lines 209-215: the sample is appended, the oldest entry of the window is read.\<close>

definition window_speed :: "rat \<Rightarrow> int \<Rightarrow> (rat \<times> int) list \<Rightarrow> (error + rat) \<times> (rat \<times> int) list" where
  "window_speed now bytes window =
     (let window' = dq_append (now, bytes) window
      in case window' of
           [] \<Rightarrow> (Inl IndexError, window')
         | oldest # rest \<Rightarrow> (speed_of (now, bytes) oldest, window'))"

text \<open>Line 217.\<close>

definition percent_of :: "int \<Rightarrow> int \<Rightarrow> error + rat" where
  "percent_of bytes total_size =
     (if total_size > 0
      then (case py_truediv (rat_of_int bytes) (rat_of_int total_size) of
              Inl e \<Rightarrow> Inl e | Inr q \<Rightarrow> Inr (q * 100))
      else Inr 0)"

datatype loop_exit = Continue | Break

text \<open>One pass through the body of the loop, lines 191-231.\<close>

definition monitor_pass ::
  "int \<Rightarrow> tick \<Rightarrow> monitor \<Rightarrow> world \<Rightarrow> (error + loop_exit) \<times> monitor \<times> world" where
  "monitor_pass total_size t m w =
     (let m1 = m\<lparr>downloaded := downloaded m + sum_list (queue w)\<rparr>;
          w1 = w\<lparr>queue := []\<rparr>
      in if key t = Some CHR ''q'' \<or> key t = Some CHR ''Q''
         then (Inr Break, m1, event_set w1)
         else
           let (speed, window) = window_speed (current_time t) (downloaded m1) (dq m1);
               m2 = m1\<lparr>dq := window\<rparr>
           in case speed of
                Inl e \<Rightarrow> (Inl e, m2, w1)
              | Inr v \<Rightarrow>
                  (case percent_of (downloaded m2) total_size of
                     Inl e \<Rightarrow> (Inl e, m2, w1)
                   | Inr pc \<Rightarrow>
                       let m3 = m2\<lparr>frames := frames m2 @ [(pc, v)]\<rparr>
                       in if downloaded m3 \<ge> total_size \<and> total_size > 0
                          then (Inr Break, m3, w1)
                          else (Inr Continue, m3, log_call (Sleep (1 / 10)) w1)))"

text \<open>
  The loop, one tick for each pass. The thread runs for as long as the download does, so
  a list of ticks that ends before the loop does gives \<open>None\<close>.
\<close>

fun progress_monitor ::
  "int \<Rightarrow> tick list \<Rightarrow> monitor \<Rightarrow> world \<Rightarrow> ((error + unit) \<times> monitor \<times> world) option" where
  "progress_monitor total_size ts m w =
     (let (stopped, w1) = is_set w in
      if stopped then Some (Inr (), m, w1)
      else
        case ts of
          [] \<Rightarrow> None
        | t # rest \<Rightarrow>
            (case monitor_pass total_size t m w1 of
               (Inl e, m', w') \<Rightarrow> Some (Inl e, m', w')
             | (Inr Break, m', w') \<Rightarrow> Some (Inr (), m', w')
             | (Inr Continue, m', w') \<Rightarrow> progress_monitor total_size rest m' w'))"

subsection \<open>The coordinator: \<^verbatim>\<open>main\<close>\<close>

text \<open>The parameters of \<^verbatim>\<open>main\<close> (line 236).\<close>

record options =
  src :: string
  dest :: path
  num_processes :: int
  split_opt :: int
  force :: bool
  verbose :: bool
  quiet :: bool
  secure_opt :: bool
  max_tries_opt :: int
  public :: bool
  region_opt :: "string option"
  show_progress :: bool
  clean :: bool

text \<open>
  The fields of the result of \<^verbatim>\<open>urllib.parse.urlsplit\<close> that \<^verbatim>\<open>main\<close> reads. The
  parser is library code and a parameter of \<open>main\<close>.
\<close>

record split_result =
  scheme :: string
  netloc :: string
  path :: string

text \<open>\<^verbatim>\<open>path.split('/')[-1]\<close>, \<^verbatim>\<open>path.lstrip('/')\<close> and the POSIX \<^verbatim>\<open>os.path.join\<close>.\<close>

definition last_segment :: "string \<Rightarrow> string" where
  "last_segment p = rev (takeWhile (\<lambda>c. c \<noteq> CHR ''/'') (rev p))"

definition lstrip_slash :: "string \<Rightarrow> string" where
  "lstrip_slash p = dropWhile (\<lambda>c. c = CHR ''/'') p"

definition path_join :: "path \<Rightarrow> string \<Rightarrow> path" where
  "path_join a b =
     (if b \<noteq> [] \<and> hd b = CHR ''/'' then b
      else if a = [] \<or> last a = CHR ''/'' then a @ b
      else a @ ''/'' @ b)"

text \<open>The messages of the four \<^verbatim>\<open>ValueError\<close>s that \<^verbatim>\<open>main\<close> raises.\<close>

definition quoted :: "string \<Rightarrow> string" where
  "quoted s = [CHR 0x27] @ s @ [CHR 0x27]"

definition not_an_s3_url :: "string \<Rightarrow> error" where
  "not_an_s3_url s = ValueError (quoted s @ '' is not an S3 url'')"

definition destination_exists :: "path \<Rightarrow> error" where
  "destination_exists d =
     ValueError (''Destination file '' @ quoted d @ '' exists, specify -f to overwrite'')"

definition does_not_exist :: "string \<Rightarrow> error" where
  "does_not_exist s = ValueError (quoted s @ '' does not exist.'')"

definition access_denied :: error where
  "access_denied = ValueError ''Access Denied. If this is a public file, try --public''"

text \<open>Lines 243-245: a destination that is a directory gets the file name of the key.\<close>

definition resolve_dest :: "split_result \<Rightarrow> path \<Rightarrow> world \<Rightarrow> path" where
  "resolve_dest split_rs d w =
     (if isdir w d then path_join d (last_segment (path split_rs)) else d)"

text \<open>Lines 247-251.\<close>

definition check_dest :: "bool \<Rightarrow> path \<Rightarrow> world \<Rightarrow> (error + unit) \<times> world" where
  "check_dest forced d w =
     (if exists w d
      then (if forced then os_remove d w else (Inl (destination_exists d), w))
      else (Inr (), w))"

text \<open>
  Lines 268-278: \<^verbatim>\<open>head_object\<close> and the handler of \<^verbatim>\<open>ClientError\<close>. Any other
  exception of the call passes through.
\<close>

definition query_size :: "string \<Rightarrow> string \<Rightarrow> string \<Rightarrow> world \<Rightarrow> (error + int) \<times> world" where
  "query_size s b k w =
     (let w1 = log_call (Head_object b k) w
      in case head_reply w of
           Inr n \<Rightarrow> (Inr n, w1)
         | Inl (ClientError code) \<Rightarrow>
             if code = ''404'' then (Inl (does_not_exist s), w1)
             else if code = ''403'' then (Inl access_denied, w1)
             else (Inl (ClientError code), w1)
         | Inl e \<Rightarrow> (Inl e, w1))"

text \<open>Line 282: \<^verbatim>\<open>s3.download_file(bucket_name, key_name, dest)\<close>.\<close>

definition download_file :: "string \<Rightarrow> string \<Rightarrow> path \<Rightarrow> world \<Rightarrow> (error + unit) \<times> world" where
  "download_file b k d w =
     (let w1 = log_call (Download_file b k d) w
      in case download_reply w of
           Inl e \<Rightarrow> (Inl e, w1)
         | Inr content \<Rightarrow> (Inr (), w1\<lparr>fs := (fs w1)(d \<mapsto> File content)\<rparr>))"

text \<open>
  Lines 291-294. The result is the value of \<^verbatim>\<open>split\<close> after line 292 and
  \<^verbatim>\<open>num_parts\<close>.
\<close>

definition calc_num_parts :: "int \<Rightarrow> int \<Rightarrow> error + int \<times> int" where
  "calc_num_parts sz split0 =
     (let size_mb = rat_of_int sz / 1024 / 1024;
          split1 = (if split0 = 0 then 32 else split0)
      in case py_truediv size_mb (rat_of_int split1) of
           Inl e \<Rightarrow> Inl e
         | Inr q \<Rightarrow>
             let num_parts = \<lceil>q\<rceil>
             in Inr (split1, if num_parts < 1 then 1 else num_parts))"

text \<open>Lines 309-311: one tuple for each range of the plan.\<close>

definition arg_iterator ::
  "options \<Rightarrow> string \<Rightarrow> string \<Rightarrow> path \<Rightarrow> int \<Rightarrow> int \<Rightarrow> int \<Rightarrow> error + args list" where
  "arg_iterator opts b k d split1 sz num_parts =
     (case gen_byte_ranges sz num_parts of
        Inl e \<Rightarrow> Inl e
      | Inr ranges \<Rightarrow>
          Inr (map (\<lambda>(lo, hi).
                 \<lparr>bucket_name = b, key_name = k, fname = d, min_byte = lo, max_byte = hi,
                  split = split1, secure = secure_opt opts, max_tries = max_tries_opt opts,
                  current_tries = 0, is_public = public opts, region = region_opt opts,
                  has_queue = show_progress opts\<rparr>) ranges))"

text \<open>
  \<^verbatim>\<open>pool.map_async(do_part_download, ...)\<close> and \<^verbatim>\<open>result.get\<close>, in one schedule:
  the parts run one after the other in the order of the plan, all of them, and \<open>get\<close>
  raises the first exception of a part. The processes of the pool are library code; the
  claims below do not depend on the schedule.
\<close>

fun run_tasks :: "args list \<Rightarrow> world \<Rightarrow> error option \<times> world" where
  "run_tasks [] w = (None, w)"
| "run_tasks (a # rest) w =
     (let (r, w1) = do_part_download a w;
          (e, w2) = run_tasks rest w1
      in (case r of Inl err \<Rightarrow> Some err | Inr u \<Rightarrow> e, w2))"

definition pool_get :: "args list \<Rightarrow> world \<Rightarrow> (error + unit) \<times> world" where
  "pool_get tasks w =
     (case interrupt_after w of
        Some k \<Rightarrow>
          (let (e, w1) = run_tasks (take k tasks) w in (Inl KeyboardInterrupt, w1))
      | None \<Rightarrow>
          (let (e, w1) = run_tasks tasks w
           in (case e of Some err \<Rightarrow> Inl err | None \<Rightarrow> Inr (), w1)))"

text \<open>The handler of \<^verbatim>\<open>KeyboardInterrupt\<close>, lines 341-362.\<close>

definition on_interrupt :: "bool \<Rightarrow> path \<Rightarrow> world \<Rightarrow> (error + unit) \<times> world" where
  "on_interrupt cleaning d w =
     (let w1 = log_call Pool_terminate (event_set w);
          w2 = (if cleaning \<and> exists w1 d then snd (os_remove d w1) else w1)
      in (Inl (SystemExit 1), w2))"

text \<open>
  The handler of \<^verbatim>\<open>Exception\<close>, lines 364-369. The pool is terminated when there is
  one (\<^verbatim>\<open>if pool\<close>): there is none when \<^verbatim>\<open>Pool(...)\<close> itself has raised.
\<close>

definition on_exception :: "bool \<Rightarrow> world \<Rightarrow> (error + unit) \<times> world" where
  "on_exception has_pool w =
     (Inl (SystemExit 1),
      if has_pool then log_call Pool_terminate (event_set w) else event_set w)"

text \<open>
  Lines 286-369: the parallel path. \<^verbatim>\<open>Pool(processes=num_processes)\<close> raises
  \<^verbatim>\<open>ValueError\<close> for fewer than one process; it does so inside the \<^verbatim>\<open>try\<close> of
  line 314, so the handler of \<^verbatim>\<open>Exception\<close> runs, without a pool to terminate. The
  event and the queue that the manager creates in lines 300-302 are the world's
  \<open>stop_event\<close> and \<open>queue\<close>: the world that a download starts in holds them as
  they are created, cleared and empty.
\<close>

definition parallel_download ::
  "options \<Rightarrow> string \<Rightarrow> string \<Rightarrow> path \<Rightarrow> int \<Rightarrow> world \<Rightarrow> (error + unit) \<times> world" where
  "parallel_download opts b k d sz w =
     (case os_create d w of
        (Inl e, w1) \<Rightarrow> (Inl e, w1)
      | (Inr u, w1) \<Rightarrow>
          (case calc_num_parts sz (split_opt opts) of
             Inl e \<Rightarrow> (Inl e, w1)
           | Inr (split1, num_parts) \<Rightarrow>
               (let w2 = (if show_progress opts then log_call Thread_start w1 else w1);
                    w3 = log_call (Pool_create (num_processes opts)) w2
                in if num_processes opts < 1 then on_exception False w2
                   else
                     (case arg_iterator opts b k d split1 sz num_parts of
                        Inl e \<Rightarrow> on_exception True w3
                      | Inr tasks \<Rightarrow>
                          (case pool_get tasks w3 of
                             (Inl KeyboardInterrupt, w4) \<Rightarrow> on_interrupt (clean opts) d w4
                           | (Inl (SystemExit n), w4) \<Rightarrow> (Inl (SystemExit n), w4)
                           | (Inl e, w4) \<Rightarrow> on_exception True w4
                           | (Inr u, w4) \<Rightarrow>
                               (let (stopped, w5) = is_set w4 in
                                if stopped then on_interrupt (clean opts) d w5
                                else (Inr (), if show_progress opts then event_set w5 else w5)))))))"

text \<open>\<^verbatim>\<open>main\<close>, lines 236-369.\<close>

definition main :: "(string \<Rightarrow> split_result) \<Rightarrow> options \<Rightarrow> world \<Rightarrow> (error + unit) \<times> world" where
  "main urlsplit opts w =
     (let split_rs = urlsplit (src opts) in
      if scheme split_rs \<noteq> ''s3'' then (Inl (not_an_s3_url (src opts)), w)
      else
        let d = resolve_dest split_rs (dest opts) w in
        (case check_dest (force opts) d w of
           (Inl e, w1) \<Rightarrow> (Inl e, w1)
         | (Inr u, w1) \<Rightarrow>
             (let b = netloc split_rs;
                  k = lstrip_slash (path split_rs)
              in (case query_size (src opts) b k w1 of
                    (Inl e, w2) \<Rightarrow> (Inl e, w2)
                  | (Inr sz, w2) \<Rightarrow>
                      if sz < 1024 * 1024 then download_file b k d w2
                      else parallel_download opts b k d sz w2))))"

subsection \<open>Executions and sample inputs\<close>

text \<open>
  The content of a file after the chunks of one stream have been written one after the
  other, starting at a position.
\<close>

fun written :: "nat \<Rightarrow> byte list list \<Rightarrow> byte list \<Rightarrow> byte list" where
  "written pos [] c = c"
| "written pos (x # xs) c = written (pos + length x) xs (write_at pos x c)"

text \<open>
  The effect of one pass of the worker that nobody cancels, on everything but the clock:
  the chunks of the answer \<open>r\<close> are in the file and on the queue, the answer is used up,
  the request is recorded.
\<close>

definition quiet_attempt :: "args \<Rightarrow> response \<Rightarrow> byte list \<Rightarrow> world \<Rightarrow> world" where
  "quiet_attempt a r c w =
     w\<lparr>fs := (fs w)(fname a \<mapsto> File (written (nat (min_byte a)) (chunks r) c)),
       queue := queue w @ (if has_queue a then map (\<lambda>x. int (length x)) (chunks r) else []),
       responses := tl (responses w),
       calls := calls w @ [Get_object (bucket_name a) (key_name a) (min_byte a) (max_byte a)]\<rparr>"

text \<open>
  An execution is a sequence of worlds in which each world arises from the one before by
  an operation of the worker, of the aggregator, or of the coordinator.
\<close>

inductive step :: "world \<Rightarrow> world \<Rightarrow> bool" where
  worker: "step w (snd (do_part_download a w))"
| aggregator_test: "step w (snd (is_set w))"
| aggregator_pass: "step w (snd (snd (monitor_pass tot t m w)))"
| coordinator: "step w (snd (main urlsplit opts w))"

fun execution :: "world list \<Rightarrow> bool" where
  "execution [] = True"
| "execution [w] = True"
| "execution (w # w' # ws) = (step w w' \<and> execution (w' # ws))"

text \<open>The number of changes of the event from cleared to set along a sequence of worlds.\<close>

fun rises :: "world list \<Rightarrow> nat" where
  "rises (w # w' # ws) = (if \<not> stop_event w \<and> stop_event w' then 1 else 0) + rises (w' # ws)"
| "rises ws = 0"

text \<open>The number of changes of the event from set to cleared.\<close>

fun falls :: "world list \<Rightarrow> nat" where
  "falls (w # w' # ws) = (if stop_event w \<and> \<not> stop_event w' then 1 else 0) + falls (w' # ws)"
| "falls ws = 0"

text \<open>
  A part of two bytes at offset 0 of the file \<open>f\<close>, and a world in which the first
  request for it breaks after one byte and the second one succeeds.
\<close>

definition sample_args :: args where
  "sample_args =
     \<lparr>bucket_name = ''bucket'', key_name = ''key'', fname = ''f'', min_byte = 0, max_byte = 1,
      split = 32, secure = True, max_tries = 5, current_tries = 0, is_public = False,
      region = None, has_queue = True\<rparr>"

definition sample_fail :: response where
  "sample_fail = \<lparr>chunks = [[7]], ending = Raises TransportError\<rparr>"

definition sample_ok :: response where
  "sample_ok = \<lparr>chunks = [[7], [8]], ending = End_of_stream\<rparr>"

definition sample_world :: world where
  "sample_world =
     \<lparr>fs = [''f'' \<mapsto> File [], ''dir'' \<mapsto> Dir],
      stop_event = False, stop_at = None, clock = 0, queue = [],
      responses = [sample_fail, sample_ok],
      head_reply = Inr 2, download_reply = Inr [7, 8],
      interrupt_after = None, calls = []\<rparr>"

definition sample_options :: options where
  "sample_options =
     \<lparr>src = ''s3://bucket/key'', dest = ''f'', num_processes = 4, split_opt = 64,
      force = False, verbose = False, quiet = False, secure_opt = True, max_tries_opt = 5,
      public = False, region_opt = None, show_progress = True, clean = False\<rparr>"

definition sample_urlsplit :: "string \<Rightarrow> split_result" where
  "sample_urlsplit s =
     (if s = ''s3://bucket/key'' then \<lparr>scheme = ''s3'', netloc = ''bucket'', path = ''/key''\<rparr>
      else \<lparr>scheme = [], netloc = [], path = s\<rparr>)"

section \<open>Properties\<close>

declare do_part_download.simps [simp del]

subsection \<open>The plan of byte ranges\<close>

lemma part_size_Inr: "num_parts \<noteq> 0 \<Longrightarrow> part_size sz num_parts = Inr (- ((- sz) div num_parts))"
  by (simp add: part_size_def py_truediv_def ceiling_divide_eq_div)

lemma part_size_bounds:
  assumes "0 < n" "part_size sz n = Inr ps"
  shows "sz \<le> ps * n" "(ps - 1) * n < sz"
proof -
  have ps: "ps = - ((- sz) div n)" using assms part_size_Inr[of n sz] by simp
  have "(- sz) div n * n \<le> - sz" using assms(1)
    by (metis div_mult_mod_eq add.commute le_add_same_cancel2 mult.commute pos_mod_sign)
  then show "sz \<le> ps * n" unfolding ps by simp
  have "- sz < ((- sz) div n + 1) * n" using assms(1)
    by (metis add.commute distrib_left div_mult_mod_eq mult.commute mult.right_neutral add_less_cancel_left pos_mod_bound)
  then show "(ps - 1) * n < sz" unfolding ps by (simp add: algebra_simps)
qed

lemma gen_byte_ranges_nth:
  assumes "gen_byte_ranges sz num_parts = Inr rs"
  shows "\<exists>ps. part_size sz num_parts = Inr ps \<and> length rs = nat num_parts \<and>
     (\<forall>i<length rs. rs ! i = (int i * ps, min ((int i + 1) * ps - 1) (sz - 1)))"
proof -
  from assms obtain ps where ps: "part_size sz num_parts = Inr ps"
    and rs: "rs = map (\<lambda>i. (ps * i, min (ps * (i + 1) - 1) (sz - 1))) [0..num_parts - 1]"
    by (auto simp: gen_byte_ranges_def split: sum.splits)
  have len: "length rs = nat num_parts" by (simp add: rs)
  have "rs ! i = (int i * ps, min ((int i + 1) * ps - 1) (sz - 1))" if "i < length rs" for i
  proof -
    have "0 + int i \<le> num_parts - 1" using that len by linarith
    then have "[0..num_parts - 1] ! i = int i" using nth_upto[of 0 i "num_parts - 1"] by simp
    with that show ?thesis by (simp add: rs mult.commute)
  qed
  with ps len show ?thesis by blast
qed

lemma contiguous_nth:
  "contiguous rs \<longleftrightarrow> (\<forall>i. Suc i < length rs \<longrightarrow> fst (rs ! Suc i) = snd (rs ! i) + 1)"
proof (induction rs rule: contiguous.induct)
  case (3 r r' rs)
  show ?case
  proof
    assume c: "contiguous (r # r' # rs)"
    show "\<forall>i. Suc i < length (r # r' # rs) \<longrightarrow> fst ((r # r' # rs) ! Suc i) = snd ((r # r' # rs) ! i) + 1"
    proof (intro allI impI)
      fix i assume "Suc i < length (r # r' # rs)"
      then show "fst ((r # r' # rs) ! Suc i) = snd ((r # r' # rs) ! i) + 1"
        using c 3 by (cases i) auto
    qed
  next
    assume h: "\<forall>i. Suc i < length (r # r' # rs) \<longrightarrow> fst ((r # r' # rs) ! Suc i) = snd ((r # r' # rs) ! i) + 1"
    have "fst r' = snd r + 1" using h[rule_format, of 0] by simp
    moreover have "contiguous (r' # rs)"
      unfolding 3
    proof (intro allI impI)
      fix i assume "Suc i < length (r' # rs)"
      then show "fst ((r' # rs) ! Suc i) = snd ((r' # rs) ! i) + 1"
        using h[rule_format, of "Suc i"] by simp
    qed
    ultimately show "contiguous (r # r' # rs)" by simp
  qed
qed simp_all

lemma contiguous_sorted:
  "list_all (\<lambda>r. fst r \<le> snd r) rs \<Longrightarrow> contiguous rs \<Longrightarrow> sorted_wrt (\<lambda>a b. snd a < fst b) rs"
proof (induction rs rule: contiguous.induct)
  case (3 r r' rs)
  then have s: "sorted_wrt (\<lambda>a b. snd a < fst b) (r' # rs)" and c: "fst r' = snd r + 1" and le: "fst r' \<le> snd r'"
    by simp_all
  have "snd r < fst b" if "b \<in> set (r' # rs)" for b
  proof (cases "b = r'")
    case True then show ?thesis using c by simp
  next
    case False
    then have "b \<in> set rs" using that by simp
    then have "snd r' < fst b" using s by simp
    then show ?thesis using c le by linarith
  qed
  then show ?case using s by simp
qed simp_all

lemma contiguous_union:
  "rs \<noteq> [] \<Longrightarrow> list_all (\<lambda>r. fst r \<le> snd r) rs \<Longrightarrow> contiguous rs \<Longrightarrow>
     \<Union> (set (map range_bytes rs)) = {fst (hd rs)..snd (last rs)}"
proof (induction rs rule: contiguous.induct)
  case (2 r) then show ?case by (simp add: range_bytes_def)
next
  case (3 r r' rs)
  then have ih: "\<Union> (set (map range_bytes (r' # rs))) = {fst r'..snd (last (r' # rs))}"
    and c: "fst r' = snd r + 1" and le: "fst r \<le> snd r" "fst r' \<le> snd r'"
    by simp_all
  have "fst r' \<le> snd (last (r' # rs))"
  proof -
    have "r' \<in> \<Union> (set (map (\<lambda>x. {x}) (r' # rs)))" by simp
    have "fst r' \<in> range_bytes r'" using le by (simp add: range_bytes_def)
    then have "fst r' \<in> \<Union> (set (map range_bytes (r' # rs)))" by simp
    then show ?thesis unfolding ih by simp
  qed
  then have "{fst r..snd r} \<union> {fst r'..snd (last (r' # rs))} = {fst r..snd (last (r' # rs))}"
    using c le by auto
  then show ?case using ih by (simp add: range_bytes_def)
qed simp

lemma contiguous_sum:
  "rs \<noteq> [] \<Longrightarrow> contiguous rs \<Longrightarrow>
     sum_list (map range_len rs) = snd (last rs) - fst (hd rs) + 1"
proof (induction rs rule: contiguous.induct)
  case (3 r r' rs)
  then show ?case by (simp add: range_len_def)
qed (simp_all add: range_len_def)


lemma plan_exact_cover:
  assumes sz: "0 < sz" and n: "0 < num_parts"
    and ps: "part_size sz num_parts = Inr ps"
    and lastpart: "ps * (num_parts - 1) < sz"
  shows "\<exists>rs. gen_byte_ranges sz num_parts = Inr rs \<and> exact_cover sz rs"
proof -
  obtain rs where rs: "gen_byte_ranges sz num_parts = Inr rs"
    using ps by (simp add: gen_byte_ranges_def)
  from gen_byte_ranges_nth[OF rs] ps
  have len: "length rs = nat num_parts"
    and nth: "\<And>i. i < length rs \<Longrightarrow> rs ! i = (int i * ps, min ((int i + 1) * ps - 1) (sz - 1))"
    by auto
  have ne: "rs \<noteq> []" using len n by auto
  have cover: "sz \<le> ps * num_parts" using part_size_bounds(1)[OF n ps] .
  have ps_pos: "0 < ps"
  proof (rule ccontr)
    assume "\<not> 0 < ps"
    then have "ps * num_parts \<le> 0" using n by (simp add: mult_le_0_iff)
    with cover sz show False by linarith
  qed
  have inner: "(int i + 1) * ps < sz" if "Suc i < length rs" for i
  proof -
    have "int i + 1 \<le> num_parts - 1" using that len by linarith
    then have "(int i + 1) * ps \<le> (num_parts - 1) * ps"
      using ps_pos by (intro mult_right_mono) simp_all
    with lastpart show ?thesis by (simp add: mult.commute)
  qed
  have start_lt: "int i * ps < sz" if "i < length rs" for i
  proof -
    have "int i \<le> num_parts - 1" using that len by linarith
    then have "int i * ps \<le> (num_parts - 1) * ps"
      using ps_pos by (intro mult_right_mono) simp_all
    with lastpart show ?thesis by (simp add: mult.commute)
  qed
  have wf: "list_all (\<lambda>r. fst r \<le> snd r) rs"
    unfolding list_all_length
  proof (intro allI impI)
    fix i assume i: "i < length rs"
    have "int i * ps \<le> (int i + 1) * ps - 1" using ps_pos by (simp add: algebra_simps)
    moreover have "int i * ps \<le> sz - 1" using start_lt[OF i] by simp
    ultimately show "fst (rs ! i) \<le> snd (rs ! i)" by (simp add: nth[OF i])
  qed
  have contig: "contiguous rs"
    unfolding contiguous_nth
  proof (intro allI impI)
    fix i assume i: "Suc i < length rs"
    then have i': "i < length rs" by simp
    have "min ((int i + 1) * ps - 1) (sz - 1) = (int i + 1) * ps - 1"
      using inner[OF i] by simp
    then show "fst (rs ! Suc i) = snd (rs ! i) + 1"
      by (simp add: nth[OF i] nth[OF i'])
  qed
  have hd: "fst (hd rs) = 0"
    using ne nth[of 0] by (simp add: hd_conv_nth)
  have "last rs = rs ! (nat num_parts - 1)" using ne len by (simp add: last_conv_nth)
  also have "\<dots> = (int (nat num_parts - 1) * ps, min ((int (nat num_parts - 1) + 1) * ps - 1) (sz - 1))"
    using n len by (intro nth) simp
  finally have "snd (last rs) = min (num_parts * ps - 1) (sz - 1)" using n by simp
  then have last: "snd (last rs) = sz - 1" using cover by (simp add: mult.commute)
  have "\<Union> (set (map range_bytes rs)) = {0..sz - 1}"
    using contiguous_union[OF ne wf contig] hd last by simp
  moreover have "sum_list (map range_len rs) = sz"
    using contiguous_sum[OF ne contig] hd last by simp
  ultimately have "exact_cover sz rs"
    using wf contig contiguous_sorted[OF wf contig] by (simp add: exact_cover_def)
  with rs show ?thesis by blast
qed


text \<open>
  C7. Part \<open>i\<close> of the plan, counted from 0, is the range from \<open>i * ps\<close> to
  \<open>min ((i + 1) * ps - 1) (size - 1)\<close>, where \<open>ps\<close> is the part size that the planner
  computes in line 161, and the plan has \<open>num_parts\<close> parts.
\<close>

theorem gen_byte_ranges_parts:
  assumes "gen_byte_ranges sz num_parts = Inr rs"
  shows "\<exists>ps. part_size sz num_parts = Inr ps \<and> length rs = nat num_parts \<and>
     (\<forall>i<length rs. rs ! i = (int i * ps, min ((int i + 1) * ps - 1) (sz - 1)))"
  using assms by (rule gen_byte_ranges_nth)

theorem gen_byte_ranges_parts_witness:
  "gen_byte_ranges 10 4 = Inr [(0, 2), (3, 5), (6, 8), (9, 9)] \<and>
   (\<exists>ps. part_size 10 4 = Inr ps \<and>
     length ([(0, 2), (3, 5), (6, 8), (9, 9)] :: byte_range list) = nat 4 \<and>
     (\<forall>i<length ([(0, 2), (3, 5), (6, 8), (9, 9)] :: byte_range list).
        ([(0, 2), (3, 5), (6, 8), (9, 9)] :: byte_range list) ! i =
          (int i * ps, min ((int i + 1) * ps - 1) (10 - 1))))"
proof -
  have h: "gen_byte_ranges 10 4 = Inr [(0, 2), (3, 5), (6, 8), (9, 9)]"
    by (simp add: gen_byte_ranges_def part_size_Inr upto.simps)
  show ?thesis by (rule conjI[OF h gen_byte_ranges_parts[OF h]])
qed

text \<open>
  C1, as stated, fails: the second parameter of the planner is a number of parts, and with
  more parts than the size allows the last ranges start after the last byte. For 3 bytes
  in 5 parts the plan is (0,0), (1,1), (2,2), (3,2), (4,2), whose lengths sum to 2.
\<close>

theorem gen_byte_ranges_too_many_parts:
  "\<not> (\<exists>rs. gen_byte_ranges 3 5 = Inr rs \<and> exact_cover 3 rs)"
  by (simp add: gen_byte_ranges_def part_size_Inr upto.simps exact_cover_def range_len_def)

text \<open>
  C1, amended. For a size above 0 and below \<open>2 ^ 53\<close> and a positive number of parts
  such that the last part starts inside the object (\<open>ps * (num_parts - 1) < size\<close> for
  the part size \<open>ps\<close> of line 161), the plan consists of ranges with \<open>start \<le> end\<close>,
  each starting one byte after the previous one ends, pairwise disjoint and in ascending
  order, whose union is \<open>{0..size - 1}\<close> and whose lengths sum to the size. The bound
  \<open>2 ^ 53\<close> is where the float division of line 161 stops being exact.
\<close>

theorem gen_byte_ranges_exact_cover:
  assumes "0 < sz" and "sz < 2 ^ 53" and "0 < num_parts"
    and "part_size sz num_parts = Inr ps"
    and "ps * (num_parts - 1) < sz"
  shows "\<exists>rs. gen_byte_ranges sz num_parts = Inr rs \<and> exact_cover sz rs"
  using assms(1,3,4,5) by (rule plan_exact_cover)

theorem gen_byte_ranges_exact_cover_witness:
  "(0::int) < 10 \<and> (10::int) < 2 ^ 53 \<and> (0::int) < 4 \<and> part_size 10 4 = Inr 3 \<and>
   (3::int) * (4 - 1) < 10 \<and>
   (\<exists>rs. gen_byte_ranges 10 4 = Inr rs \<and> exact_cover 10 rs)"
proof -
  have h: "part_size 10 4 = Inr 3" by (simp add: part_size_Inr)
  have l: "(3::int) * (4 - 1) < 10" by simp
  have b: "(10::int) < 2 ^ 53" by simp
  show ?thesis
    using h l b gen_byte_ranges_exact_cover[OF _ b _ h l] by simp
qed

subsection \<open>The worker\<close>

lemma is_set_quiet:
  "\<not> stop_event w \<Longrightarrow> stop_at w = None \<Longrightarrow> is_set w = (False, w\<lparr>clock := Suc (clock w)\<rparr>)"
  by (simp add: is_set_def)

lemma write_at_append:
  "write_at (pos + length a) b (write_at pos a c) = write_at pos (a @ b) c"
  by (auto simp: write_at_def min_def add.commute add.left_commute)

lemma written_concat:
  "cs \<noteq> [] \<Longrightarrow> written pos cs c = write_at pos (concat cs) c"
proof (induction cs arbitrary: pos c)
  case (Cons x xs)
  show ?case
  proof (cases "xs = []")
    case True then show ?thesis by simp
  next
    case False
    then show ?thesis using Cons.IH[OF False] by (simp add: write_at_append)
  qed
qed simp

lemma write_at_read:
  "take (length bs) (drop pos (write_at pos bs c)) = bs"
  by (simp add: write_at_def min_def)

lemma write_chunks_quiet:
  assumes "\<not> stop_event w" "stop_at w = None" "[] \<notin> set cs" "fs w (fd_path d) = Some (File c)"
  shows "write_chunks q cs d w =
     (True, w\<lparr>fs := (fs w)(fd_path d \<mapsto> File (written (fd_pos d) cs c)),
              queue := queue w @ (if q then map (\<lambda>x. int (length x)) cs else []),
              clock := clock w + length cs\<rparr>)"
  using assms
proof (induction cs arbitrary: d w c)
  case Nil
  then show ?case by (simp add: map_upd_triv)
next
  case (Cons x xs)
  let ?d = "d\<lparr>fd_pos := fd_pos d + length x\<rparr>"
  let ?w = "(if q then queue_put (int (length x)) else id)
              (w\<lparr>clock := Suc (clock w), fs := (fs w)(fd_path d \<mapsto> File (write_at (fd_pos d) x c))\<rparr>)"
  have q: "\<not> stop_event ?w" "stop_at ?w = None" "[] \<notin> set xs"
    "fs ?w (fd_path ?d) = Some (File (write_at (fd_pos d) x c))"
    using Cons.prems by (simp_all add: queue_put_def)
  have x: "x \<noteq> []" using Cons.prems by auto
  have step: "write_chunks q (x # xs) d w = write_chunks q xs ?d ?w"
    using Cons.prems(1,2,4) x by (simp add: is_set_quiet os_write_def)
  show ?case
    unfolding step Cons.IH[OF q] by (auto simp add: queue_put_def fun_eq_iff)
qed


lemma attempt_quiet:
  assumes "\<not> stop_event w" "stop_at w = None" "fs w (fname a) = Some (File c)" "0 \<le> min_byte a"
    and "responses w = r # rs" "[] \<notin> set (chunks r)"
  shows "download_attempt a w =
     (case ending r of
        End_of_stream \<Rightarrow> (Returned (Inr ()), (quiet_attempt a r c w)\<lparr>clock := clock w + length (chunks r) + 1\<rparr>)
      | Raises e \<Rightarrow>
          if is_exception e
          then (Failed_attempt e, (quiet_attempt a r c w)\<lparr>clock := clock w + length (chunks r) + 2\<rparr>)
          else (Returned (Inl e), (quiet_attempt a r c w)\<lparr>clock := clock w + length (chunks r) + 1\<rparr>))"
proof -
  let ?w1 = "w\<lparr>clock := Suc (clock w)\<rparr>"
  let ?d = "\<lparr>fd_path = fname a, fd_pos = nat (min_byte a)\<rparr>"
  let ?w2 = "log_call (Get_object (bucket_name a) (key_name a) (min_byte a) (max_byte a)) (?w1\<lparr>responses := rs\<rparr>)"
  let ?w3 = "?w2\<lparr>fs := (fs ?w2)(fd_path ?d \<mapsto> File (written (fd_pos ?d) (chunks r) c)),
              queue := queue ?w2 @ (if has_queue a then map (\<lambda>x. int (length x)) (chunks r) else []),
              clock := clock ?w2 + length (chunks r)\<rparr>"
  have o: "os_open_seek (fname a) (min_byte a) ?w1 = Inr ?d"
    using assms by (simp add: os_open_seek_def)
  have g: "get_object (bucket_name a) (key_name a) (min_byte a) (max_byte a) ?w1 = (r, ?w2)"
    using assms by (simp add: get_object_def)
  have q2: "\<not> stop_event ?w2" "stop_at ?w2 = None" "fs ?w2 (fd_path ?d) = Some (File c)"
    using assms by (simp_all add: log_call_def)
  have wc: "write_chunks (has_queue a) (chunks r) ?d ?w2 = (True, ?w3)"
    by (rule write_chunks_quiet[OF q2(1,2) assms(6) q2(3)])
  have q3: "\<not> stop_event ?w3" "stop_at ?w3 = None"
    using assms by (simp_all add: log_call_def)
  have "download_attempt a w =
     (case ending r of
        End_of_stream \<Rightarrow> (Returned (Inr ()), ?w3)
      | Raises err \<Rightarrow>
          if \<not> is_exception err then (Returned (Inl err), ?w3)
          else (Failed_attempt err, ?w3\<lparr>clock := Suc (clock ?w3)\<rparr>))"
    by (simp only: download_attempt_def is_set_quiet[OF assms(1,2)] is_set_quiet[OF q3]
        Let_def prod.case if_False if_True o g wc sum.case)
  also have "\<dots> =
     (case ending r of
        End_of_stream \<Rightarrow> (Returned (Inr ()), (quiet_attempt a r c w)\<lparr>clock := clock w + length (chunks r) + 1\<rparr>)
      | Raises e \<Rightarrow>
          if is_exception e
          then (Failed_attempt e, (quiet_attempt a r c w)\<lparr>clock := clock w + length (chunks r) + 2\<rparr>)
          else (Returned (Inl e), (quiet_attempt a r c w)\<lparr>clock := clock w + length (chunks r) + 1\<rparr>))"
    using assms(5) by (simp add: quiet_attempt_def log_call_def split: stream_end.splits)
  finally show ?thesis .
qed


lemma retry_quiet:
  assumes "\<not> stop_event w" "stop_at w = None" "fs w (fname a) = Some (File c)" "0 \<le> min_byte a"
    and "responses w = fails @ ok # rest"
    and "\<forall>r\<in>set fails. [] \<notin> set (chunks r) \<and> (\<exists>e. ending r = Raises e \<and> is_exception e)"
    and "int (length fails) \<le> max_tries a + 1 - current_tries a"
    and "[] \<notin> set (chunks ok)" "ending ok = End_of_stream"
  shows "\<exists>w'. do_part_download a w = (Inr (), w') \<and>
      fs w' = (fs w)(fname a \<mapsto> File (written (nat (min_byte a)) (chunks ok)
                 (foldl (\<lambda>c r. written (nat (min_byte a)) (chunks r) c) c fails))) \<and>
      queue w' = queue w @
        (if has_queue a then concat (map (\<lambda>r. map (\<lambda>x. int (length x)) (chunks r)) (fails @ [ok])) else []) \<and>
      responses w' = rest \<and> \<not> stop_event w' \<and>
      calls w' = calls w @
        concat (map (\<lambda>r. [Get_object (bucket_name a) (key_name a) (min_byte a) (max_byte a), Sleep 3]) fails) @
        [Get_object (bucket_name a) (key_name a) (min_byte a) (max_byte a)]"
  using assms
proof (induction fails arbitrary: a w c)
  case Nil
  then have r: "responses w = ok # rest" by simp
  show ?case
    using Nil.prems(1,2,9)
    by (subst do_part_download.simps)
       (simp add: attempt_quiet[OF Nil.prems(1-4) r Nil.prems(8)] quiet_attempt_def r)
next
  case (Cons f fails)
  from Cons.prems(6) obtain e where f: "[] \<notin> set (chunks f)" "ending f = Raises e" "is_exception e"
    by auto
  have r: "responses w = f # (fails @ ok # rest)" using Cons.prems(5) by simp
  have tries: "\<not> current_tries a > max_tries a" using Cons.prems(7) by simp
  let ?a = "a\<lparr>current_tries := current_tries a + 1\<rparr>"
  let ?w = "log_call (Sleep 3) ((quiet_attempt a f c w)\<lparr>clock := clock w + length (chunks f) + 2\<rparr>)"
  have step: "do_part_download a w = do_part_download ?a ?w"
    using tries f(2,3)
    by (subst do_part_download.simps)
       (simp add: attempt_quiet[OF Cons.prems(1-4) r f(1)])
  have p: "\<not> stop_event ?w" "stop_at ?w = None"
    "fs ?w (fname ?a) = Some (File (written (nat (min_byte a)) (chunks f) c))"
    "0 \<le> min_byte ?a" "responses ?w = fails @ ok # rest"
    "\<forall>r\<in>set fails. [] \<notin> set (chunks r) \<and> (\<exists>e. ending r = Raises e \<and> is_exception e)"
    "int (length fails) \<le> max_tries ?a + 1 - current_tries ?a"
    using Cons.prems by (simp_all add: log_call_def quiet_attempt_def r)
  from Cons.IH[OF p Cons.prems(8,9)] obtain w' where w':
    "do_part_download ?a ?w = (Inr (), w')"
    "fs w' = (fs ?w)(fname ?a \<mapsto> File (written (nat (min_byte ?a)) (chunks ok)
                 (foldl (\<lambda>c r. written (nat (min_byte ?a)) (chunks r) c) (written (nat (min_byte a)) (chunks f) c) fails)))"
    "queue w' = queue ?w @
        (if has_queue ?a then concat (map (\<lambda>r. map (\<lambda>x. int (length x)) (chunks r)) (fails @ [ok])) else [])"
    "responses w' = rest" "\<not> stop_event w'"
    "calls w' = calls ?w @
        concat (map (\<lambda>r. [Get_object (bucket_name ?a) (key_name ?a) (min_byte ?a) (max_byte ?a), Sleep 3]) fails) @
        [Get_object (bucket_name ?a) (key_name ?a) (min_byte ?a) (max_byte ?a)]"
    by blast
  show ?case
    unfolding step
    using w' by (auto simp add: log_call_def quiet_attempt_def fun_eq_iff)
qed


lemma sum_chunk_lengths: "sum_list (map (\<lambda>x. int (length x)) cs) = int (length (concat cs))"
  by (induction cs) simp_all

lemma sum_all_chunk_lengths:
  "sum_list (concat (map (\<lambda>r. map (\<lambda>x. int (length x)) (chunks r)) rs)) =
     (\<Sum>r\<leftarrow>rs. int (length (concat (chunks r))))"
  by (induction rs) (simp_all add: sum_chunk_lengths)

lemma written_read:
  assumes "[] \<notin> set cs"
  shows "take (length (concat cs)) (drop pos (written pos cs c)) = concat cs"
proof (cases "cs = []")
  case True then show ?thesis by simp
next
  case False
  then show ?thesis by (simp add: written_concat write_at_read)
qed

text \<open>
  C2, amended. Take a worker that nobody cancels, whose file exists, and whose requests
  fail some number of times, at most \<open>max_tries + 1 - current_tries\<close> (for a fresh task
  this allows every number up to \<open>max_tries\<close>), each after any number of non-empty
  chunks, and then succeed with the content of the range. The worker returns normally and
  the file holds the complete content of the range at the range's offset. The progress it
  has put on the queue is the length of the range plus the bytes of all chunks written
  during the failed requests: it is never less than the length of the range, and equal to
  it when no failed request delivered a chunk.
\<close>

theorem retried_download:
  assumes "\<not> stop_event w" and "stop_at w = None"
    and "fs w (fname a) = Some (File c)" and "0 \<le> min_byte a"
    and "responses w = fails @ ok # rest"
    and "\<forall>r\<in>set fails. [] \<notin> set (chunks r) \<and> (\<exists>e. ending r = Raises e \<and> is_exception e)"
    and "int (length fails) \<le> max_tries a + 1 - current_tries a"
    and "[] \<notin> set (chunks ok)" and "ending ok = End_of_stream"
    and "int (length (concat (chunks ok))) = max_byte a - min_byte a + 1"
  shows "\<exists>w' c'. do_part_download a w = (Inr (), w') \<and>
      fs w' (fname a) = Some (File c') \<and>
      take (length (concat (chunks ok))) (drop (nat (min_byte a)) c') = concat (chunks ok) \<and>
      (has_queue a \<longrightarrow>
         sum_list (queue w') = sum_list (queue w) + (max_byte a - min_byte a + 1) +
           (\<Sum>r\<leftarrow>fails. int (length (concat (chunks r)))))"
proof -
  from retry_quiet[OF assms(1-9)] obtain w' where w':
    "do_part_download a w = (Inr (), w')"
    "fs w' = (fs w)(fname a \<mapsto> File (written (nat (min_byte a)) (chunks ok)
                 (foldl (\<lambda>c r. written (nat (min_byte a)) (chunks r) c) c fails)))"
    "queue w' = queue w @
        (if has_queue a then concat (map (\<lambda>r. map (\<lambda>x. int (length x)) (chunks r)) (fails @ [ok])) else [])"
    by blast
  let ?c = "written (nat (min_byte a)) (chunks ok)
              (foldl (\<lambda>c r. written (nat (min_byte a)) (chunks r) c) c fails)"
  have f: "fs w' (fname a) = Some (File ?c)" by (simp add: w'(2))
  have r: "take (length (concat (chunks ok))) (drop (nat (min_byte a)) ?c) = concat (chunks ok)"
    by (rule written_read[OF assms(8)])
  have q: "sum_list (queue w') = sum_list (queue w) + (max_byte a - min_byte a + 1) +
           (\<Sum>r\<leftarrow>fails. int (length (concat (chunks r))))" if "has_queue a"
    using that assms(10) sum_all_chunk_lengths[of "fails @ [ok]"] by (simp add: w'(3))
  from w'(1) f r q show ?thesis by blast
qed

lemma sample_run:
  "do_part_download sample_args sample_world =
     (Inr (), sample_world\<lparr>fs := [''dir'' \<mapsto> Dir, ''f'' \<mapsto> File [7, 8]], clock := 6, queue := [1, 1, 1],
        responses := [],
        calls := [Get_object ''bucket'' ''key'' 0 1, Sleep 3, Get_object ''bucket'' ''key'' 0 1]\<rparr>)"
  apply (subst do_part_download.simps)
  apply (simp add: download_attempt_def sample_args_def sample_world_def is_set_def os_open_seek_def
      get_object_def log_call_def os_write_def queue_put_def write_at_def sample_fail_def sample_ok_def)
  apply (subst do_part_download.simps)
  apply (simp add: download_attempt_def is_set_def os_open_seek_def
      get_object_def log_call_def os_write_def queue_put_def write_at_def)
  done


theorem retried_download_witness:
  "\<not> stop_event sample_world \<and> stop_at sample_world = None \<and>
   fs sample_world (fname sample_args) = Some (File []) \<and> 0 \<le> min_byte sample_args \<and>
   responses sample_world = [sample_fail] @ sample_ok # [] \<and>
   [] \<notin> set (chunks sample_fail) \<and> ending sample_fail = Raises TransportError \<and>
   is_exception TransportError \<and>
   int (length [sample_fail]) \<le> max_tries sample_args + 1 - current_tries sample_args \<and>
   [] \<notin> set (chunks sample_ok) \<and> ending sample_ok = End_of_stream \<and>
   int (length (concat (chunks sample_ok))) = max_byte sample_args - min_byte sample_args + 1 \<and>
   (\<exists>w' c'. do_part_download sample_args sample_world = (Inr (), w') \<and>
      fs w' (fname sample_args) = Some (File c') \<and>
      take (length (concat (chunks sample_ok))) (drop (nat (min_byte sample_args)) c') =
        concat (chunks sample_ok) \<and>
      (has_queue sample_args \<longrightarrow>
         sum_list (queue w') =
           sum_list (queue sample_world) + (max_byte sample_args - min_byte sample_args + 1) +
           (\<Sum>r\<leftarrow>[sample_fail]. int (length (concat (chunks r))))))"
proof -
  have h: "\<not> stop_event sample_world" "stop_at sample_world = None"
    "fs sample_world (fname sample_args) = Some (File [])" "0 \<le> min_byte sample_args"
    "responses sample_world = [sample_fail] @ sample_ok # []"
    "\<forall>r\<in>set [sample_fail]. [] \<notin> set (chunks r) \<and> (\<exists>e. ending r = Raises e \<and> is_exception e)"
    "int (length [sample_fail]) \<le> max_tries sample_args + 1 - current_tries sample_args"
    "[] \<notin> set (chunks sample_ok)" "ending sample_ok = End_of_stream"
    "int (length (concat (chunks sample_ok))) = max_byte sample_args - min_byte sample_args + 1"
    by (simp_all add: sample_world_def sample_args_def sample_fail_def sample_ok_def)
  have e: "[] \<notin> set (chunks sample_fail)" "ending sample_fail = Raises TransportError"
    "is_exception TransportError"
    by (simp_all add: sample_fail_def)
  show ?thesis
    using h(1-5,7-10) e retried_download[OF h] by blast
qed

text \<open>
  C2, as stated, fails: the chunks of a failed request are reported to the queue when
  they are written (line 133) and nothing takes them back when the range is fetched
  again. In the sample world the first request delivers one byte and breaks, the second
  delivers both bytes: the file holds the two bytes of the range and the queue holds 3.
\<close>

theorem retried_bytes_counted_twice:
  "fst (do_part_download sample_args sample_world) = Inr () \<and>
   fs (snd (do_part_download sample_args sample_world)) (fname sample_args) = Some (File [7, 8]) \<and>
   queue sample_world = [] \<and>
   \<not> sum_list (queue (snd (do_part_download sample_args sample_world)))
       \<le> max_byte sample_args - min_byte sample_args + 1"
  by (simp add: sample_run) (simp add: sample_args_def sample_world_def)


text \<open>
  C4, amended. A worker whose first reading of the event finds it set makes no network
  call, writes nothing to any file, puts nothing on the queue, and returns at once
  without raising. Its return value is Python's \<^verbatim>\<open>None\<close>, the value that a worker
  returns after a complete download as well.
\<close>

theorem cancelled_before_start:
  assumes "fst (is_set w)"
  shows "\<exists>w'. do_part_download a w = (Inr (), w') \<and> stop_event w' \<and>
     calls w' = calls w \<and> fs w' = fs w \<and> queue w' = queue w \<and> responses w' = responses w"
  using assms
  by (subst do_part_download.simps) (auto simp: download_attempt_def is_set_def Let_def split: if_splits)

theorem cancelled_before_start_witness:
  "fst (is_set (event_set sample_world)) \<and>
   (\<exists>w'. do_part_download sample_args (event_set sample_world) = (Inr (), w') \<and> stop_event w' \<and>
     calls w' = calls (event_set sample_world) \<and> fs w' = fs (event_set sample_world) \<and>
     queue w' = queue (event_set sample_world) \<and> responses w' = responses (event_set sample_world))"
proof -
  have h: "fst (is_set (event_set sample_world))"
    by (simp add: is_set_def event_set_def)
  show ?thesis using h cancelled_before_start[OF h] by blast
qed

text \<open>
  C4, as stated, fails in its last part: the worker has no outcome of its own for a
  cancellation. The worker that finds the event set and writes nothing returns the same
  value as the worker that downloads its whole range.
\<close>

theorem cancelled_returns_like_completed:
  "fst (is_set (event_set sample_world)) \<and>
   fst (do_part_download sample_args (event_set sample_world)) =
     fst (do_part_download sample_args sample_world) \<and>
   fs (snd (do_part_download sample_args (event_set sample_world))) ''f'' = Some (File []) \<and>
   fs (snd (do_part_download sample_args sample_world)) ''f'' = Some (File [7, 8])"
proof -
  have "do_part_download sample_args (event_set sample_world) =
      (Inr (), (event_set sample_world)\<lparr>clock := 1\<rparr>)"
    by (subst do_part_download.simps)
       (simp add: download_attempt_def is_set_def event_set_def sample_world_def)
  then show ?thesis
    by (simp add: sample_run) (simp add: is_set_def event_set_def sample_world_def)
qed


subsection \<open>The cancellation flag\<close>

lemma is_set_keeps: "is_set w = (b, w') \<Longrightarrow> stop_event w \<Longrightarrow> stop_event w' \<and> b"
  by (auto simp: is_set_def Let_def split: if_splits)

lemma write_chunks_keeps:
  "write_chunks q cs d w = (b, w') \<Longrightarrow> stop_event w \<Longrightarrow> stop_event w'"
proof (induction cs arbitrary: d w)
  case (Cons x xs)
  obtain s w1 where i: "is_set w = (s, w1)" by (cases "is_set w")
  from is_set_keeps[OF i Cons.prems(2)] have "stop_event w1" "s" by simp_all
  with Cons.prems(1) i show ?case by simp
qed simp

lemma download_attempt_keeps:
  assumes "download_attempt a w = (r, w')" "stop_event w" shows "stop_event w'"
proof -
  obtain s w1 where i: "is_set w = (s, w1)" by (cases "is_set w")
  from is_set_keeps[OF i assms(2)] have "stop_event w1" "s" by simp_all
  with assms(1) i show ?thesis by (simp add: download_attempt_def)
qed

lemma do_part_download_keeps:
  "do_part_download a w = (r, w') \<Longrightarrow> stop_event w \<Longrightarrow> stop_event w'"
proof (induction a w arbitrary: r w' rule: do_part_download.induct)
  case (1 a w)
  obtain x w1 where d: "download_attempt a w = (x, w1)" by (cases "download_attempt a w")
  have s1: "stop_event w1" by (rule download_attempt_keeps[OF d "1.prems"(2)])
  show ?case
  proof (cases x)
    case (Returned y)
    with "1.prems"(1) d s1 show ?thesis by (subst (asm) do_part_download.simps) simp
  next
    case (Failed_attempt err)
    show ?thesis
    proof (cases "current_tries a > max_tries a")
      case True
      with "1.prems"(1) d Failed_attempt s1 show ?thesis
        by (subst (asm) do_part_download.simps) simp
    next
      case False
      have s2: "stop_event (log_call (Sleep 3) w1)" using s1 by (simp add: log_call_def)
      have "do_part_download (a\<lparr>current_tries := current_tries a + 1\<rparr>) (log_call (Sleep 3) w1) = (r, w')"
        using "1.prems"(1) d Failed_attempt False by (subst (asm) do_part_download.simps) simp
      from "1.IH"[OF d[symmetric] Failed_attempt False this s2] show ?thesis .
    qed
  qed
qed

lemma monitor_pass_keeps:
  "monitor_pass tot t m w = (r, m', w') \<Longrightarrow> stop_event w \<Longrightarrow> stop_event w'"
  by (auto simp: monitor_pass_def Let_def event_set_def log_call_def
      split: prod.splits sum.splits if_splits)

lemma run_tasks_keeps:
  "run_tasks tasks w = (e, w') \<Longrightarrow> stop_event w \<Longrightarrow> stop_event w'"
proof (induction tasks arbitrary: w e w')
  case (Cons a rest)
  obtain r w1 where r: "do_part_download a w = (r, w1)" by (cases "do_part_download a w")
  obtain e2 w2 where t: "run_tasks rest w1 = (e2, w2)" by (cases "run_tasks rest w1")
  have "stop_event w1" by (rule do_part_download_keeps[OF r Cons.prems(2)])
  from Cons.IH[OF t this] Cons.prems(1) r t show ?case by simp
qed simp

lemma pool_get_keeps:
  "pool_get tasks w = (r, w') \<Longrightarrow> stop_event w \<Longrightarrow> stop_event w'"
  by (auto simp: pool_get_def split: option.splits prod.splits dest: run_tasks_keeps)

lemma os_remove_flag: "os_remove p w = (r, w') \<Longrightarrow> stop_event w' = stop_event w"
  by (auto simp: os_remove_def split: option.splits node.splits)

lemma os_create_flag: "os_create p w = (r, w') \<Longrightarrow> stop_event w' = stop_event w"
  by (auto simp: os_create_def split: option.splits node.splits)

lemma on_interrupt_sets: "on_interrupt c d w = (r, w') \<Longrightarrow> stop_event w'"
  using os_remove_flag[of d "log_call Pool_terminate (event_set w)"]
  by (cases "os_remove d (log_call Pool_terminate (event_set w))")
     (auto simp: on_interrupt_def Let_def log_call_def event_set_def split: if_splits)

lemma on_exception_sets: "on_exception p w = (r, w') \<Longrightarrow> stop_event w'"
  by (auto simp: on_exception_def log_call_def event_set_def split: if_splits)

lemma parallel_download_keeps:
  assumes "parallel_download opts b k d sz w = (r, w')" "stop_event w"
  shows "stop_event w'"
proof -
  obtain r1 w1 where c: "os_create d w = (r1, w1)" by (cases "os_create d w")
  then have s1: "stop_event w1" using os_create_flag[OF c] assms(2) by simp
  show ?thesis
  proof (cases r1)
    case (Inl e) then show ?thesis using assms(1) c s1 by (simp add: parallel_download_def)
  next
    case r1: (Inr u)
    show ?thesis
    proof (cases "calc_num_parts sz (split_opt opts)")
      case (Inl e) then show ?thesis using assms(1) c s1 r1 by (simp add: parallel_download_def)
    next
      case sn: (Inr sn)
      obtain split1 num_parts where sn': "sn = (split1, num_parts)" by (cases sn)
      let ?w3 = "log_call (Pool_create (num_processes opts)) (if show_progress opts then log_call Thread_start w1 else w1)"
      have s3: "stop_event ?w3" using s1 by (simp add: log_call_def)
      show ?thesis
      proof (cases "num_processes opts < 1")
        case True
        then have "on_exception False (if show_progress opts then log_call Thread_start w1 else w1) = (r, w')"
          using assms(1) c r1 sn sn' by (simp add: parallel_download_def Let_def)
        then show ?thesis by (rule on_exception_sets)
      next
      case procs: False
      show ?thesis
      proof (cases "arg_iterator opts b k d split1 sz num_parts")
        case (Inl e)
        then have "on_exception True ?w3 = (r, w')"
          using assms(1) c r1 sn sn' procs by (simp add: parallel_download_def Let_def)
        then show ?thesis by (rule on_exception_sets)
      next
        case tasks: (Inr tasks)
        obtain r4 w4 where p: "pool_get tasks ?w3 = (r4, w4)" by (cases "pool_get tasks ?w3")
        have s4: "stop_event w4" by (rule pool_get_keeps[OF p s3])
        obtain s w5 where i: "is_set w4 = (s, w5)" by (cases "is_set w4")
        from is_set_keeps[OF i s4] have s5: "stop_event w5" "s" by simp_all
        have eq: "(case r4 of
                     Inl KeyboardInterrupt \<Rightarrow> on_interrupt (clean opts) d w4
                   | Inl (SystemExit n) \<Rightarrow> (Inl (SystemExit n), w4)
                   | Inl e \<Rightarrow> on_exception True w4
                   | Inr u \<Rightarrow> on_interrupt (clean opts) d w5) = (r, w')"
          using assms(1) c r1 sn sn' procs tasks p i s5
          by (simp add: parallel_download_def Let_def split: sum.splits error.splits)
        show ?thesis
          using eq s4 on_interrupt_sets on_exception_sets
          by (auto split: sum.splits error.splits)
      qed
      qed
    qed
  qed
qed

lemma check_dest_flag: "check_dest f d w = (r, w') \<Longrightarrow> stop_event w' = stop_event w"
  by (auto simp: check_dest_def split: if_splits dest: os_remove_flag)

lemma query_size_flag: "query_size s b k w = (r, w') \<Longrightarrow> stop_event w' = stop_event w"
  by (auto simp: query_size_def Let_def log_call_def split: sum.splits error.splits if_splits)

lemma download_file_flag: "download_file b k d w = (r, w') \<Longrightarrow> stop_event w' = stop_event w"
  by (auto simp: download_file_def Let_def log_call_def split: sum.splits)

lemma main_keeps:
  assumes "main u opts w = (r, w')" "stop_event w" shows "stop_event w'"
proof (cases "scheme (u (src opts)) \<noteq> ''s3''")
  case True
  with assms show ?thesis by (simp add: main_def Let_def)
next
  case False
  let ?d = "resolve_dest (u (src opts)) (dest opts) w"
  obtain r1 w1 where c: "check_dest (force opts) ?d w = (r1, w1)"
    by (cases "check_dest (force opts) ?d w")
  have s1: "stop_event w1" using check_dest_flag[OF c] assms(2) by simp
  show ?thesis
  proof (cases r1)
    case (Inl e) with assms(1) False c s1 show ?thesis by (simp add: main_def Let_def)
  next
    case r1: (Inr x)
    let ?b = "netloc (u (src opts))" and ?k = "lstrip_slash (path (u (src opts)))"
    obtain r2 w2 where q: "query_size (src opts) ?b ?k w1 = (r2, w2)"
      by (cases "query_size (src opts) ?b ?k w1")
    have s2: "stop_event w2" using query_size_flag[OF q] s1 by simp
    show ?thesis
    proof (cases r2)
      case (Inl e) with assms(1) False c r1 q s2 show ?thesis by (simp add: main_def Let_def)
    next
      case r2: (Inr sz)
      show ?thesis
      proof (cases "sz < 1024 * 1024")
        case True
        then have "download_file ?b ?k ?d w2 = (r, w')"
          using assms(1) False c r1 q r2 by (simp add: main_def Let_def)
        from download_file_flag[OF this] s2 show ?thesis by simp
      next
        case big: False
        then have "parallel_download opts ?b ?k ?d sz w2 = (r, w')"
          using assms(1) False c r1 q r2 by (simp add: main_def Let_def)
        from parallel_download_keeps[OF this s2] show ?thesis .
      qed
    qed
  qed
qed

lemma step_keeps: "step w w' \<Longrightarrow> stop_event w \<Longrightarrow> stop_event w'"
proof (induction rule: step.induct)
  case (worker w a)
  then show ?case using do_part_download_keeps[of a w] by (cases "do_part_download a w") simp
next
  case (aggregator_test w)
  then show ?case using is_set_keeps[of w] by (cases "is_set w") simp
next
  case (aggregator_pass w tot t m)
  then show ?case using monitor_pass_keeps[of tot t m w]
    by (cases "monitor_pass tot t m w") auto
next
  case (coordinator w urlsplit opts)
  then show ?case using main_keeps[of urlsplit opts w] by (cases "main urlsplit opts w") simp
qed

lemma execution_set:
  "execution (w # ws) \<Longrightarrow> stop_event w \<Longrightarrow>
     (\<forall>v\<in>set ws. stop_event v) \<and> rises (w # ws) = 0 \<and> falls (w # ws) = 0"
proof (induction ws arbitrary: w)
  case (Cons v ws)
  from Cons.prems have st: "step w v" and ex: "execution (v # ws)" by simp_all
  have v: "stop_event v" by (rule step_keeps[OF st Cons.prems(2)])
  from Cons.IH[OF ex v] v Cons.prems(2) show ?case by simp
qed simp

lemma execution_rises: "execution ws \<Longrightarrow> rises ws \<le> 1 \<and> falls ws = 0"
proof (induction ws rule: rises.induct)
  case (1 w w' ws)
  from "1.prems" have st: "step w w'" and ex: "execution (w' # ws)" by simp_all
  show ?case
  proof (cases "stop_event w'")
    case True
    from execution_set[OF ex True] True show ?thesis by simp
  next
    case False
    then have "\<not> stop_event w" using step_keeps[OF st] by blast
    with False "1.IH"[OF ex] show ?thesis by simp
  qed
qed simp_all


lemma execution_tl: "execution (w # ws) \<Longrightarrow> execution ws"
  by (cases ws) simp_all

lemma execution_nth:
  "execution ws \<Longrightarrow> i \<le> j \<Longrightarrow> j < length ws \<Longrightarrow> stop_event (ws ! i) \<Longrightarrow> stop_event (ws ! j)"
proof (induction ws arbitrary: i j)
  case (Cons w ws)
  show ?case
  proof (cases i)
    case 0
    show ?thesis
    proof (cases j)
      case 0 with \<open>i = 0\<close> Cons.prems show ?thesis by simp
    next
      case (Suc j')
      with Cons.prems 0 have "(w # ws) ! j \<in> set ws" by simp
      with execution_set[OF Cons.prems(1)] Cons.prems(4) 0 show ?thesis by simp
    qed
  next
    case (Suc i')
    then obtain j' where j: "j = Suc j'" using Cons.prems(2) by (cases j) simp_all
    from Cons.IH[OF execution_tl[OF Cons.prems(1)], of i' j'] Cons.prems Suc j
    show ?thesis by simp
  qed
qed simp

text \<open>
  C9. Along every execution, that is every sequence of operations of workers, of the
  aggregator and of the coordinator, the event changes from cleared to set at most once
  and never from set to cleared: once it is set in a world it is set in every later one.
  The only operations of the script on the event are \<^verbatim>\<open>is_set\<close> and \<^verbatim>\<open>set\<close>.
\<close>

theorem stop_event_set_once:
  assumes "execution ws"
  shows "rises ws \<le> 1 \<and> falls ws = 0 \<and>
     (\<forall>i j. i \<le> j \<and> j < length ws \<and> stop_event (ws ! i) \<longrightarrow> stop_event (ws ! j))"
  using execution_rises[OF assms] execution_nth[OF assms] by blast

theorem stop_event_set_once_witness:
  "execution [sample_world,
      snd (snd (monitor_pass 2 \<lparr>current_time = 0, key = Some CHR ''q''\<rparr>
                  \<lparr>downloaded = 0, dq = [], frames = []\<rparr> sample_world)),
      snd (do_part_download sample_args
        (snd (snd (monitor_pass 2 \<lparr>current_time = 0, key = Some CHR ''q''\<rparr>
                  \<lparr>downloaded = 0, dq = [], frames = []\<rparr> sample_world))))] \<and>
   rises [sample_world,
      snd (snd (monitor_pass 2 \<lparr>current_time = 0, key = Some CHR ''q''\<rparr>
                  \<lparr>downloaded = 0, dq = [], frames = []\<rparr> sample_world)),
      snd (do_part_download sample_args
        (snd (snd (monitor_pass 2 \<lparr>current_time = 0, key = Some CHR ''q''\<rparr>
                  \<lparr>downloaded = 0, dq = [], frames = []\<rparr> sample_world))))] \<le> 1 \<and>
   falls [sample_world,
      snd (snd (monitor_pass 2 \<lparr>current_time = 0, key = Some CHR ''q''\<rparr>
                  \<lparr>downloaded = 0, dq = [], frames = []\<rparr> sample_world)),
      snd (do_part_download sample_args
        (snd (snd (monitor_pass 2 \<lparr>current_time = 0, key = Some CHR ''q''\<rparr>
                  \<lparr>downloaded = 0, dq = [], frames = []\<rparr> sample_world))))] = 0"
proof -
  let ?w1 = "snd (snd (monitor_pass 2 \<lparr>current_time = 0, key = Some CHR ''q''\<rparr>
                  \<lparr>downloaded = 0, dq = [], frames = []\<rparr> sample_world))"
  have h: "execution [sample_world, ?w1, snd (do_part_download sample_args ?w1)]"
    by (simp add: step.aggregator_pass step.worker)
  show ?thesis using h stop_event_set_once[OF h] by blast
qed


subsection \<open>The aggregator\<close>

text \<open>
  C8. When the oldest and the newest entry of the window carry the same time stamp, the
  speed that the aggregator computes is 0: the division of line 215 is not evaluated, so
  there is no \<^verbatim>\<open>ZeroDivisionError\<close> and no infinite quotient.
\<close>

theorem speed_zero_elapsed:
  assumes "window' = dq_append (now, bytes) window"
    and "fst (hd window') = fst (last window')"
  shows "window_speed now bytes window = (Inr 0, window')"
proof -
  have l: "last window' = (now, bytes)" and ne: "window' \<noteq> []"
    using assms(1) by (simp_all add: dq_append_def)
  then obtain oldest rest where w: "window' = oldest # rest" by (cases window') simp_all
  with assms(2) l have "fst oldest = now" by simp
  with w assms(1) show ?thesis
    by (simp add: window_speed_def speed_of_def Let_def)
qed

theorem speed_zero_elapsed_witness:
  "([(5, 0), (5, 100)] :: (rat \<times> int) list) = dq_append (5, 100) [(5, 0)] \<and>
   fst (hd ([(5, 0), (5, 100)] :: (rat \<times> int) list)) =
     fst (last ([(5, 0), (5, 100)] :: (rat \<times> int) list)) \<and>
   window_speed 5 100 [(5, 0)] = (Inr 0, [(5, 0), (5, 100)])"
proof -
  have h: "([(5, 0), (5, 100)] :: (rat \<times> int) list) = dq_append (5, 100) [(5, 0)]"
    "fst (hd ([(5, 0), (5, 100)] :: (rat \<times> int) list)) =
       fst (last ([(5, 0), (5, 100)] :: (rat \<times> int) list))"
    by (simp_all add: dq_append_def)
  show ?thesis using h speed_zero_elapsed[OF h] by blast
qed

text \<open>The speed computation raises for no window at all.\<close>

lemma window_speed_no_error: "\<exists>v. fst (window_speed now bytes window) = Inr v"
  by (auto simp: window_speed_def speed_of_def dq_append_def py_truediv_def Let_def split: list.splits)

subsection \<open>The coordinator\<close>

lemma calc_num_parts_Inr:
  "calc_num_parts sz sp =
     Inr (if sp = 0 then 32 else sp,
          max 1 (- ((- sz) div (1048576 * (if sp = 0 then 32 else sp)))))"
proof -
  let ?s = "if sp = 0 then 32 else sp"
  have "rat_of_int sz / 1024 / 1024 / rat_of_int ?s = rat_of_int sz / rat_of_int (1048576 * ?s)"
    by simp
  then have "\<lceil>rat_of_int sz / 1024 / 1024 / rat_of_int ?s\<rceil> = - ((- sz) div (1048576 * ?s))"
    by (simp only: ceiling_divide_eq_div)
  then show ?thesis
    by (auto simp add: calc_num_parts_def py_truediv_def Let_def max_def)
qed

lemma arg_iterator_split_opt:
  "arg_iterator (opts\<lparr>split_opt := x\<rparr>) b k d s sz n = arg_iterator opts b k d s sz n"
  by (simp add: arg_iterator_def cong: sum.case_cong)

lemma parallel_download_split_zero:
  "parallel_download (opts\<lparr>split_opt := 0\<rparr>) b k d sz w = parallel_download (opts\<lparr>split_opt := 32\<rparr>) b k d sz w"
  by (simp add: parallel_download_def calc_num_parts_Inr arg_iterator_split_opt Let_def
      cong: sum.case_cong prod.case_cong error.case_cong if_cong)

text \<open>
  C10. A split option of 0 is replaced by 32 before the number of parts is computed: the
  computation gives what it gives for 32, it never raises \<^verbatim>\<open>ZeroDivisionError\<close>
  whatever the option is, and the whole download with option 0 is the download with
  option 32.
\<close>

theorem split_zero_is_32:
  "calc_num_parts sz 0 = calc_num_parts sz 32 \<and>
   (\<exists>n. calc_num_parts sz 0 = Inr (32, n) \<and> 1 \<le> n) \<and>
   calc_num_parts sz sp \<noteq> Inl ZeroDivisionError \<and>
   main urlsplit (opts\<lparr>split_opt := 0\<rparr>) w = main urlsplit (opts\<lparr>split_opt := 32\<rparr>) w"
  by (simp add: calc_num_parts_Inr main_def parallel_download_split_zero Let_def
      cong: sum.case_cong prod.case_cong if_cong)


theorem split_zero_is_32_witness:
  "calc_num_parts 104857600 0 = Inr (32, 4) \<and>
   calc_num_parts 104857600 0 = calc_num_parts 104857600 32 \<and>
   main sample_urlsplit (sample_options\<lparr>split_opt := 0\<rparr>) sample_world =
     main sample_urlsplit (sample_options\<lparr>split_opt := 32\<rparr>) sample_world"
  using split_zero_is_32[of 104857600 0 sample_urlsplit sample_options sample_world]
  by (simp add: calc_num_parts_Inr)


text \<open>
  The coordinator only asks for plans that cover the object exactly: the number of parts
  of line 293 always meets the condition of \<open>plan_exact_cover\<close>. The size is again
  taken below \<open>2 ^ 53\<close>, where the model's quotients are the script's.
\<close>

lemma coordinator_plan_exact_cover:
  assumes "calc_num_parts sz sp = Inr (s, n)" and "0 < sz" and "sz < 2 ^ 53"
  shows "\<exists>rs. gen_byte_ranges sz n = Inr rs \<and> exact_cover sz rs"
proof -
  let ?P = "1048576 * s"
  from assms(1) have s: "s \<noteq> 0" and n: "n = max 1 (- ((- sz) div ?P))"
    by (auto simp: calc_num_parts_Inr split: if_splits)
  have npos: "0 < n" using n by simp
  obtain ps where ps: "part_size sz n = Inr ps" using npos by (simp add: part_size_Inr)
  have "ps * (n - 1) < sz"
  proof (cases "n = 1")
    case True
    then show ?thesis using assms(2) by simp
  next
    case False
    then have n2: "n = - ((- sz) div ?P)" "2 \<le> n" using n by (simp_all add: max_def split: if_splits)
    have Ppos: "0 < ?P"
    proof (rule ccontr)
      assume "\<not> 0 < ?P"
      then have "?P < 0" using s by simp
      then have "0 \<le> (- sz) div ?P" using assms(2) by (simp add: div_nonpos_pos_le0 neg_imp_zdiv_nonneg_iff)
      with n2 show False by simp
    qed
    have pn: "part_size sz ?P = Inr n" using Ppos n2 by (simp add: part_size_Inr)
    have b1: "sz \<le> n * ?P" "(n - 1) * ?P < sz"
      using part_size_bounds[OF Ppos pn] by simp_all
    have b2: "(ps - 1) * n < sz" using part_size_bounds(2)[OF npos ps] .
    have "ps \<le> ?P"
    proof (rule ccontr)
      assume "\<not> ps \<le> ?P"
      then have "?P \<le> ps - 1" by simp
      then have "?P * n \<le> (ps - 1) * n" using npos by (intro mult_right_mono) simp_all
      with b1(1) b2 show False by (simp add: mult.commute)
    qed
    then have "ps * (n - 1) \<le> ?P * (n - 1)" using n2(2) by (intro mult_right_mono) simp_all
    with b1(2) show ?thesis by (simp add: mult.commute)
  qed
  from plan_exact_cover[OF assms(2) npos ps this] show ?thesis .
qed


lemma check_dest_calls:
  "check_dest f d w = (r, w') \<Longrightarrow> calls w' = calls w \<and> head_reply w' = head_reply w \<and> download_reply w' = download_reply w"
  by (auto simp: check_dest_def os_remove_def split: if_splits option.splits node.splits)

lemma main_after_check:
  assumes "scheme (urlsplit (src opts)) = ''s3''"
    and "check_dest (force opts) (resolve_dest (urlsplit (src opts)) (dest opts) w) w = (Inr (), w1)"
  shows "main urlsplit opts w =
     (case query_size (src opts) (netloc (urlsplit (src opts)))
             (lstrip_slash (path (urlsplit (src opts)))) w1 of
        (Inl e, w2) \<Rightarrow> (Inl e, w2)
      | (Inr sz, w2) \<Rightarrow>
          if sz < 1024 * 1024
          then download_file (netloc (urlsplit (src opts))) (lstrip_slash (path (urlsplit (src opts))))
                 (resolve_dest (urlsplit (src opts)) (dest opts) w) w2
          else parallel_download opts (netloc (urlsplit (src opts)))
                 (lstrip_slash (path (urlsplit (src opts))))
                 (resolve_dest (urlsplit (src opts)) (dest opts) w) sz w2)"
  using assms by (simp add: main_def Let_def)

lemma message_ends:
  "last (quoted s @ '' does not exist.'') = CHR ''.''"
  "last (quoted s @ '' is not an S3 url'') = CHR ''l''"
  by simp_all

lemma errors_differ:
  "does_not_exist s \<noteq> access_denied"
  "does_not_exist s \<noteq> ClientError c"
  "access_denied \<noteq> ClientError c"
  "does_not_exist s \<noteq> not_an_s3_url s'"
  "does_not_exist s \<noteq> destination_exists d"
  "access_denied \<noteq> not_an_s3_url s'"
  "access_denied \<noteq> destination_exists d"
proof -
  show "does_not_exist s \<noteq> not_an_s3_url s'"
  proof
    assume "does_not_exist s = not_an_s3_url s'"
    then have "quoted s @ '' does not exist.'' = quoted s' @ '' is not an S3 url''"
      by (simp add: does_not_exist_def not_an_s3_url_def)
    then have "last (quoted s @ '' does not exist.'') = last (quoted s' @ '' is not an S3 url'')"
      by (rule arg_cong)
    then show False unfolding message_ends by simp
  qed
qed (simp_all add: does_not_exist_def access_denied_def not_an_s3_url_def destination_exists_def quoted_def)

text \<open>
  C3. When the source is an S3 URL and the destination check has passed, a reply 404 of
  the Head query makes the download fail with the error "<src> does not exist.", a reply
  403 with the error "Access Denied. If this is a public file, try --public", and any
  other error code is raised again as the \<^verbatim>\<open>ClientError\<close> it came as. The two errors
  differ from each other, from every \<^verbatim>\<open>ClientError\<close>, and from the errors that
  \<^verbatim>\<open>main\<close> raises for a wrong URL scheme and for an existing destination. All four
  are \<^verbatim>\<open>ValueError\<close>s: it is the message that tells them apart.
\<close>

theorem head_errors:
  assumes "scheme (urlsplit (src opts)) = ''s3''"
    and "check_dest (force opts) (resolve_dest (urlsplit (src opts)) (dest opts) w) w = (Inr (), w1)"
  shows "(head_reply w1 = Inl (ClientError ''404'') \<longrightarrow>
            fst (main urlsplit opts w) = Inl (does_not_exist (src opts))) \<and>
         (head_reply w1 = Inl (ClientError ''403'') \<longrightarrow>
            fst (main urlsplit opts w) = Inl access_denied) \<and>
         (head_reply w1 = Inl (ClientError code) \<and> code \<noteq> ''404'' \<and> code \<noteq> ''403'' \<longrightarrow>
            fst (main urlsplit opts w) = Inl (ClientError code)) \<and>
         does_not_exist (src opts) \<noteq> access_denied \<and>
         does_not_exist (src opts) \<noteq> ClientError code \<and>
         access_denied \<noteq> ClientError code \<and>
         does_not_exist (src opts) \<noteq> not_an_s3_url s \<and>
         does_not_exist (src opts) \<noteq> destination_exists d \<and>
         access_denied \<noteq> not_an_s3_url s \<and>
         access_denied \<noteq> destination_exists d"
  unfolding main_after_check[of urlsplit opts w w1, OF assms]
  by (simp add: errors_differ query_size_def Let_def)

text \<open>
  C5, amended. When the source is an S3 URL, the destination file exists and
  \<^verbatim>\<open>force\<close> is false, \<^verbatim>\<open>main\<close> raises the error "Destination file ... exists" and
  leaves the world as it was: no file is changed and no call is made. The destination
  file is the given path, or, when the given path is a directory, the file in it that is
  named after the key (lines 243-245).
\<close>

theorem destination_exists_error:
  assumes "scheme (urlsplit (src opts)) = ''s3''"
    and "exists w (resolve_dest (urlsplit (src opts)) (dest opts) w)"
    and "\<not> force opts"
  shows "main urlsplit opts w =
     (Inl (destination_exists (resolve_dest (urlsplit (src opts)) (dest opts) w)), w)"
  using assms by (simp add: main_def Let_def check_dest_def)

text \<open>
  C6. When the source is an S3 URL, the destination check has passed and the Head query
  reports a size below \<open>1024 * 1024\<close>, the download is the single transfer of line 282:
  \<^verbatim>\<open>main\<close> makes the Head query and one \<^verbatim>\<open>download_file\<close> call and nothing else
  (no pool, no thread, no ranged request), and returns what the transfer returns.
\<close>

theorem small_object_direct:
  assumes "scheme (urlsplit (src opts)) = ''s3''"
    and "check_dest (force opts) (resolve_dest (urlsplit (src opts)) (dest opts) w) w = (Inr (), w1)"
    and "head_reply w1 = Inr sz" and "sz < 1024 * 1024"
  shows "main urlsplit opts w =
           download_file (netloc (urlsplit (src opts))) (lstrip_slash (path (urlsplit (src opts))))
             (resolve_dest (urlsplit (src opts)) (dest opts) w)
             (log_call (Head_object (netloc (urlsplit (src opts)))
                          (lstrip_slash (path (urlsplit (src opts))))) w1) \<and>
         calls (snd (main urlsplit opts w)) =
           calls w @
           [Head_object (netloc (urlsplit (src opts))) (lstrip_slash (path (urlsplit (src opts)))),
            Download_file (netloc (urlsplit (src opts))) (lstrip_slash (path (urlsplit (src opts))))
              (resolve_dest (urlsplit (src opts)) (dest opts) w)] \<and>
         fst (main urlsplit opts w) = (case download_reply w of Inl e \<Rightarrow> Inl e | Inr c \<Rightarrow> Inr ())"
  unfolding main_after_check[of urlsplit opts w w1, OF assms(1,2)]
  using assms(3,4) check_dest_calls[OF assms(2)]
  by (simp add: query_size_def Let_def download_file_def log_call_def split: sum.splits)


lemma sample_scheme: "scheme (sample_urlsplit (src (sample_options\<lparr>dest := p\<rparr>))) = ''s3''"
  "scheme (sample_urlsplit (src sample_options)) = ''s3''"
  by (simp_all add: sample_urlsplit_def sample_options_def)

lemma sample_check_new:
  "fs w = fs sample_world \<Longrightarrow>
   check_dest (force (sample_options\<lparr>dest := ''new''\<rparr>))
     (resolve_dest (sample_urlsplit (src (sample_options\<lparr>dest := ''new''\<rparr>)))
        (dest (sample_options\<lparr>dest := ''new''\<rparr>)) w) w = (Inr (), w)"
  by (simp add: check_dest_def resolve_dest_def isdir_def exists_def sample_world_def)

theorem head_errors_witness:
  "scheme (sample_urlsplit (src (sample_options\<lparr>dest := ''new''\<rparr>))) = ''s3'' \<and>
   check_dest (force (sample_options\<lparr>dest := ''new''\<rparr>))
     (resolve_dest (sample_urlsplit (src (sample_options\<lparr>dest := ''new''\<rparr>)))
        (dest (sample_options\<lparr>dest := ''new''\<rparr>))
        (sample_world\<lparr>head_reply := Inl (ClientError ''404'')\<rparr>))
     (sample_world\<lparr>head_reply := Inl (ClientError ''404'')\<rparr>) =
     (Inr (), sample_world\<lparr>head_reply := Inl (ClientError ''404'')\<rparr>) \<and>
   head_reply (sample_world\<lparr>head_reply := Inl (ClientError ''404'')\<rparr>) =
     Inl (ClientError ''404'') \<and>
   fst (main sample_urlsplit (sample_options\<lparr>dest := ''new''\<rparr>)
          (sample_world\<lparr>head_reply := Inl (ClientError ''404'')\<rparr>)) =
     Inl (does_not_exist (src (sample_options\<lparr>dest := ''new''\<rparr>)))"
proof -
  let ?w = "sample_world\<lparr>head_reply := Inl (ClientError ''404'')\<rparr>"
  let ?o = "sample_options\<lparr>dest := ''new''\<rparr>"
  have h1: "scheme (sample_urlsplit (src ?o)) = ''s3''" by (rule sample_scheme)
  have h2: "check_dest (force ?o) (resolve_dest (sample_urlsplit (src ?o)) (dest ?o) ?w) ?w = (Inr (), ?w)"
    by (rule sample_check_new) simp
  have h3: "head_reply ?w = Inl (ClientError ''404'')" by simp
  show ?thesis
    using h1 h2 h3 head_errors[of sample_urlsplit ?o ?w ?w, OF h1 h2] by blast
qed

theorem destination_exists_error_witness:
  "scheme (sample_urlsplit (src sample_options)) = ''s3'' \<and>
   exists sample_world (resolve_dest (sample_urlsplit (src sample_options)) (dest sample_options) sample_world) \<and>
   \<not> force sample_options \<and>
   main sample_urlsplit sample_options sample_world =
     (Inl (destination_exists
             (resolve_dest (sample_urlsplit (src sample_options)) (dest sample_options) sample_world)),
      sample_world)"
proof -
  have h: "scheme (sample_urlsplit (src sample_options)) = ''s3''"
    "exists sample_world (resolve_dest (sample_urlsplit (src sample_options)) (dest sample_options) sample_world)"
    "\<not> force sample_options"
    by (simp_all add: sample_urlsplit_def sample_options_def sample_world_def resolve_dest_def
        isdir_def exists_def)
  show ?thesis
    using h destination_exists_error[of sample_urlsplit sample_options sample_world, OF h] by blast
qed

text \<open>
  C5, as stated, fails for a destination path that exists as a directory: the check of
  line 247 is made on the file inside it. With the destination \<open>dir\<close> of the sample
  world and \<^verbatim>\<open>force\<close> false, the Head query and the transfer are made and the file
  \<open>dir/key\<close> is written.
\<close>

theorem existing_directory_destination:
  "exists sample_world (dest (sample_options\<lparr>dest := ''dir''\<rparr>)) \<and>
   \<not> force (sample_options\<lparr>dest := ''dir''\<rparr>) \<and>
   fst (main sample_urlsplit (sample_options\<lparr>dest := ''dir''\<rparr>) sample_world) = Inr () \<and>
   calls (snd (main sample_urlsplit (sample_options\<lparr>dest := ''dir''\<rparr>) sample_world)) =
     [Head_object ''bucket'' ''key'', Download_file ''bucket'' ''key'' ''dir/key''] \<and>
   fs (snd (main sample_urlsplit (sample_options\<lparr>dest := ''dir''\<rparr>) sample_world)) ''dir/key'' =
     Some (File [7, 8])"
  by (simp add: main_def Let_def sample_urlsplit_def sample_options_def sample_world_def
      resolve_dest_def isdir_def exists_def check_dest_def path_join_def last_segment_def
      lstrip_slash_def query_size_def log_call_def download_file_def)

theorem small_object_direct_witness:
  "scheme (sample_urlsplit (src (sample_options\<lparr>dest := ''new''\<rparr>))) = ''s3'' \<and>
   check_dest (force (sample_options\<lparr>dest := ''new''\<rparr>))
     (resolve_dest (sample_urlsplit (src (sample_options\<lparr>dest := ''new''\<rparr>)))
        (dest (sample_options\<lparr>dest := ''new''\<rparr>)) sample_world)
     sample_world = (Inr (), sample_world) \<and>
   head_reply sample_world = Inr 2 \<and> (2 :: int) < 1024 * 1024 \<and>
   calls (snd (main sample_urlsplit (sample_options\<lparr>dest := ''new''\<rparr>)
                 sample_world)) =
     calls sample_world @
     [Head_object (netloc (sample_urlsplit (src (sample_options\<lparr>dest := ''new''\<rparr>))))
        (lstrip_slash (path (sample_urlsplit (src (sample_options\<lparr>dest := ''new''\<rparr>))))),
      Download_file (netloc (sample_urlsplit (src (sample_options\<lparr>dest := ''new''\<rparr>))))
        (lstrip_slash (path (sample_urlsplit (src (sample_options\<lparr>dest := ''new''\<rparr>)))))
        (resolve_dest (sample_urlsplit (src (sample_options\<lparr>dest := ''new''\<rparr>)))
           (dest (sample_options\<lparr>dest := ''new''\<rparr>)) sample_world)]"
proof -
  let ?w = "sample_world"
  let ?o = "sample_options\<lparr>dest := ''new''\<rparr>"
  have h1: "scheme (sample_urlsplit (src ?o)) = ''s3''" by (rule sample_scheme)
  have h2: "check_dest (force ?o) (resolve_dest (sample_urlsplit (src ?o)) (dest ?o) ?w) ?w = (Inr (), ?w)"
    by (rule sample_check_new) simp
  have h3: "head_reply ?w = Inr 2" by (simp add: sample_world_def)
  have h4: "(2 :: int) < 1024 * 1024" by simp
  show ?thesis
    using h1 h2 h3 h4 small_object_direct[of sample_urlsplit ?o ?w ?w 2, OF h1 h2 h3 h4] by blast
qed


end
